theory Spec2Isabelle
  imports Main "HOL-Library.Word"
begin

unbundle bit_operations_syntax

section \<open>JavaScript values used by the codec\<close>

text \<open>
  The bitwise operators of JavaScript work on 32-bit two's complement integers: a result
  is the bit pattern of an \<open>int32\<close>, a shift count is taken modulo 32, \<open>>>\<close> is the
  arithmetic shift. An element of a \<open>Uint8Array\<close> is a byte; storing a number into one
  keeps its low 8 bits. Strings are sequences of characters with codes below 256; code
  units beyond 255 are outside this model.
\<close>

type_synonym int32 = "32 word"
type_synonym uint8 = "8 word"

definition js_shl :: "int32 \<Rightarrow> nat \<Rightarrow> int32" where
  "js_shl x n = push_bit (n mod 32) x"

definition js_sar :: "int32 \<Rightarrow> nat \<Rightarrow> int32" where
  "js_sar x n = signed_drop_bit (n mod 32) x"

definition charCodeAt :: "char \<Rightarrow> int32" where
  "charCodeAt c = of_char c"

text \<open>\<open>String.prototype.toLowerCase\<close> on characters below 256: the letters A to Z and the
  capital letters of Latin-1 (192 to 222, without the multiplication sign 215) move up by 32.\<close>

definition toLowerCase_char :: "char \<Rightarrow> char" where
  "toLowerCase_char c =
     (let n = (of_char c :: nat) in
      if (65 \<le> n \<and> n \<le> 90) \<or> (192 \<le> n \<and> n \<le> 222 \<and> n \<noteq> 215)
      then char_of (n + 32) else c)"

definition toLowerCase :: "string \<Rightarrow> string" where
  "toLowerCase s = map toLowerCase_char s"

text \<open>\<open>indexOf\<close> and \<open>lastIndexOf\<close> for a one-character needle; \<open>None\<close> is the result -1.\<close>

fun indexOf :: "'a list \<Rightarrow> 'a \<Rightarrow> nat option" where
  "indexOf [] c = None"
| "indexOf (x # xs) c = (if x = c then Some 0 else map_option Suc (indexOf xs c))"

fun lastIndexOf :: "'a list \<Rightarrow> 'a \<Rightarrow> nat option" where
  "lastIndexOf [] c = None"
| "lastIndexOf (x # xs) c =
     (case lastIndexOf xs c of
        Some i \<Rightarrow> Some (Suc i)
      | None \<Rightarrow> if x = c then Some 0 else None)"

text \<open>\<open>charAt\<close> is the empty string out of range.\<close>

definition charAt :: "string \<Rightarrow> nat \<Rightarrow> string" where
  "charAt s n = (if n < length s then [s ! n] else [])"

section \<open>Errors and results\<close>

text \<open>The source throws \<open>Error\<close> objects that differ in their message; each message is one
  constructor, with the values the message prints.\<close>

datatype error =
    MissingSeparator
  | SeparatorTooEarly nat
  | InsufficientData nat
  | InvalidCharacter char
  | ExcessPadding
  | NonZeroPadding
  | PrefixMismatch string string
  | EmptyPayload

text \<open>A call that may not return: \<open>None\<close> is a call that never returns, \<open>Some (Inl e)\<close> one
  that throws \<open>e\<close>, \<open>Some (Inr v)\<close> one that returns \<open>v\<close>.\<close>

type_synonym 'a outcome = "(error + 'a) option"

record decoded =
  humanReadablePart :: string
  data :: "uint8 list"

record typed_address =
  addressType :: uint8
  addressBytes :: "uint8 list"

section \<open>Class Bech32\<close>

definition CHARSET :: string where
  "CHARSET = ''qpzry9x8gf2tvdw0s3jn54khce6mua7l''"

definition SEPARATOR :: char where
  "SEPARATOR = CHR ''1''"

definition GENERATOR :: "int32 list" where
  "GENERATOR = [0x3b6a57b2, 0x26508e6d, 0x1ea119fa, 0x3d4233dd, 0x2a1462b3]"

subsection \<open>Checksum\<close>

definition polymod_step :: "uint8 \<Rightarrow> int32 \<Rightarrow> int32" where
  "polymod_step v chk =
     (let top = js_sar chk 25;
          chk1 = js_shl (chk AND 0x1ffffff) 5 XOR ucast v
      in fold (\<lambda>i c. if js_sar top i AND 1 \<noteq> 0 then c XOR GENERATOR ! i else c) [0..<5] chk1)"

definition polymod :: "uint8 list \<Rightarrow> int32" where
  "polymod values = fold polymod_step values 1"

definition humanReadablePartExpand :: "string \<Rightarrow> uint8 list" where
  "humanReadablePartExpand hrp =
     map (\<lambda>c. ucast (js_sar (charCodeAt c) 5)) hrp @ [0] @
     map (\<lambda>c. ucast (charCodeAt c AND 31)) hrp"

definition createChecksum :: "string \<Rightarrow> uint8 list \<Rightarrow> uint8 list" where
  "createChecksum hrp d5 =
     (let expanded = humanReadablePartExpand hrp;
          values = expanded @ d5 @ [0, 0, 0, 0, 0, 0];
          md = polymod values XOR 1
      in map (\<lambda>i. ucast (js_sar md (5 * (5 - i)) AND 31)) [0..<6])"

definition verifyChecksum :: "string \<Rightarrow> uint8 list \<Rightarrow> bool" where
  "verifyChecksum hrp d5 = (polymod (humanReadablePartExpand hrp @ d5) = 1)"

subsection \<open>Conversion between bit widths\<close>

text \<open>The inner \<open>while\<close> loop of \<open>convertBits\<close>. It does not end when \<open>toBits\<close> is 0.\<close>

partial_function (option) convertBits_while ::
  "nat \<Rightarrow> int32 \<Rightarrow> int32 \<Rightarrow> nat \<Rightarrow> int32 list \<Rightarrow> (nat \<times> int32 list) option" where
  "convertBits_while toBits maxV val bits res =
     (if toBits \<le> bits
      then convertBits_while toBits maxV val (bits - toBits)
             (res @ [js_sar val (bits - toBits) AND maxV])
      else Some (bits, res))"

declare convertBits_while.simps [code]

text \<open>The \<open>for\<close> loop over the input; the state is \<open>value\<close>, \<open>bits\<close> and \<open>res\<close>.\<close>

fun convertBits_for ::
  "nat \<Rightarrow> nat \<Rightarrow> int32 \<Rightarrow> uint8 list \<Rightarrow> int32 \<Rightarrow> nat \<Rightarrow> int32 list
     \<Rightarrow> (int32 \<times> nat \<times> int32 list) option" where
  "convertBits_for fromBits toBits maxV [] val bits res = Some (val, bits, res)"
| "convertBits_for fromBits toBits maxV (d # ds) val bits res =
     (let val1 = js_shl val fromBits OR ucast d in
      case convertBits_while toBits maxV val1 (bits + fromBits) res of
        None \<Rightarrow> None
      | Some (bits1, res1) \<Rightarrow> convertBits_for fromBits toBits maxV ds val1 bits1 res1)"

text \<open>\<open>new Uint8Array(res)\<close> keeps the low 8 bits of each number.\<close>

definition convertBits :: "uint8 list \<Rightarrow> nat \<Rightarrow> nat \<Rightarrow> bool \<Rightarrow> uint8 list outcome" where
  "convertBits bytes fromBits toBits padding =
     (let maxV = js_shl 1 toBits - 1 in
      case convertBits_for fromBits toBits maxV bytes 0 0 [] of
        None \<Rightarrow> None
      | Some (val, bits, res) \<Rightarrow>
          if padding then
            Some (Inr (map ucast
              (if 0 < bits then res @ [js_shl val (toBits - bits) AND maxV] else res)))
          else if fromBits \<le> bits then Some (Inl ExcessPadding)
          else if js_shl val (toBits - bits) AND maxV \<noteq> 0 then Some (Inl NonZeroPadding)
          else Some (Inr (map ucast res)))"

definition to5Bit :: "uint8 list \<Rightarrow> uint8 list outcome" where
  "to5Bit bytes = convertBits bytes 8 5 True"

definition from5Bit :: "uint8 list \<Rightarrow> uint8 list outcome" where
  "from5Bit fiveBit = convertBits fiveBit 5 8 False"

subsection \<open>Encoding\<close>

definition encode5BitArray :: "string \<Rightarrow> uint8 list \<Rightarrow> string" where
  "encode5BitArray hrp data5Bit =
     (let checksum = createChecksum hrp data5Bit;
          ret = hrp @ [SEPARATOR];
          ret1 = fold (\<lambda>d r. r @ charAt CHARSET (unat d)) data5Bit ret
      in fold (\<lambda>d r. r @ charAt CHARSET (unat d)) checksum ret1)"

definition encode :: "string \<Rightarrow> uint8 list \<Rightarrow> string outcome" where
  "encode hrp bytes =
     (case to5Bit bytes of
        None \<Rightarrow> None
      | Some (Inl e) \<Rightarrow> Some (Inl e)
      | Some (Inr data5Bit) \<Rightarrow> Some (Inr (encode5BitArray hrp data5Bit)))"

subsection \<open>Decoding\<close>

text \<open>The loop of \<open>decodeTo5BitArray\<close> over the characters after the separator: the first
  character outside the alphabet throws.\<close>

fun decode_symbols :: "string \<Rightarrow> error + uint8 list" where
  "decode_symbols [] = Inr []"
| "decode_symbols (c # cs) =
     (case indexOf CHARSET c of
        None \<Rightarrow> Inl (InvalidCharacter c)
      | Some d \<Rightarrow>
          (case decode_symbols cs of
             Inl e \<Rightarrow> Inl e
           | Inr ds \<Rightarrow> Inr (of_nat d # ds)))"

text \<open>The result \<open>Inr None\<close> is the \<open>undefined\<close> of a checksum that does not verify.
  \<open>slice(0, -6)\<close> drops the last six elements.\<close>

definition decodeTo5BitArray :: "string \<Rightarrow> error + decoded option" where
  "decodeTo5BitArray bech0 =
     (let bech = toLowerCase bech0 in
      case lastIndexOf bech SEPARATOR of
        None \<Rightarrow> Inl MissingSeparator
      | Some separatorPos \<Rightarrow>
          if separatorPos < 1 then Inl (SeparatorTooEarly separatorPos)
          else if length bech < separatorPos + 7 then Inl (InsufficientData separatorPos)
          else
            (case decode_symbols (drop (separatorPos + 1) bech) of
               Inl e \<Rightarrow> Inl e
             | Inr d5 \<Rightarrow>
                 let hrp = take separatorPos bech in
                 if \<not> verifyChecksum hrp d5 then Inr None
                 else Inr (Some \<lparr>humanReadablePart = hrp, data = take (length d5 - 6) d5\<rparr>)))"

definition decode :: "string \<Rightarrow> decoded option outcome" where
  "decode bech =
     (case decodeTo5BitArray bech of
        Inl e \<Rightarrow> Some (Inl e)
      | Inr None \<Rightarrow> Some (Inr None)
      | Inr (Some result) \<Rightarrow>
          (case from5Bit (data result) of
             None \<Rightarrow> None
           | Some (Inl e) \<Rightarrow> Some (Inl e)
           | Some (Inr bytes) \<Rightarrow>
               Some (Inr (Some \<lparr>humanReadablePart = humanReadablePart result, data = bytes\<rparr>))))"

subsection \<open>The pattern pre-check\<close>

text \<open>
  \<open>matches\<close> builds the regular expression \<open>^<hrp>1[<CHARSET>]{6,}$\<close> and tests the text
  against it. A character of \<open>hrp\<close> that is not a syntax character of the pattern language
  (the backslash, code 0x5C, and \<open>^ $ . * + ? ( ) [ ] { } |\<close>) stands for itself, so for such
  an \<open>hrp\<close> the expression accepts exactly \<open>hrp\<close>, then \<open>1\<close>, then at least six characters of
  the alphabet. With a syntax character in \<open>hrp\<close> the expression means something else, or does
  not compile; the meaning of such patterns is not modelled, and \<open>matches\<close> is \<open>None\<close> there.
  An absent or empty text is rejected before the expression is built.
\<close>

definition pattern_character :: "char \<Rightarrow> bool" where
  "pattern_character c = (c \<notin> set (CHR 0x5C # ''^$.*+?()[]{}|''))"

definition matches :: "string \<Rightarrow> string option \<Rightarrow> bool option" where
  "matches hrp bech32Text =
     (case bech32Text of
        None \<Rightarrow> Some False
      | Some text \<Rightarrow>
          if text = [] then Some False
          else if \<not> list_all pattern_character hrp then None
          else Some (take (length hrp) text = hrp \<and>
                 (case drop (length hrp) text of
                    [] \<Rightarrow> False
                  | c # rest \<Rightarrow> c = CHR ''1'' \<and> 6 \<le> length rest \<and>
                      list_all (\<lambda>x. x \<in> set CHARSET) rest)))"

section \<open>Class Bech32Helper\<close>

text \<open>\<open>addressData[0] = addressType\<close> stores a number into a byte array; the address
  type is an integer here, and the byte is its value modulo 256.\<close>

definition toBech32 :: "int \<Rightarrow> uint8 list \<Rightarrow> string \<Rightarrow> string outcome" where
  "toBech32 addrType addrBytes hrp = encode hrp (word_of_int addrType # addrBytes)"

definition fromBech32 :: "string \<Rightarrow> string \<Rightarrow> typed_address option outcome" where
  "fromBech32 bech32Text hrp =
     (case decode bech32Text of
        None \<Rightarrow> None
      | Some (Inl e) \<Rightarrow> Some (Inl e)
      | Some (Inr None) \<Rightarrow> Some (Inr None)
      | Some (Inr (Some dec)) \<Rightarrow>
          if humanReadablePart dec \<noteq> hrp
          then Some (Inl (PrefixMismatch hrp (humanReadablePart dec)))
          else if length (data dec) = 0 then Some (Inl EmptyPayload)
          else Some (Inr (Some \<lparr>addressType = data dec ! 0, addressBytes = drop 1 (data dec)\<rparr>)))"

section \<open>Notions used to state the properties\<close>

text \<open>Position \<open>p\<close> holds the last occurrence of \<open>c\<close> in \<open>s\<close>.\<close>

definition last_occurrence :: "string \<Rightarrow> char \<Rightarrow> nat \<Rightarrow> bool" where
  "last_occurrence s c p = (p < length s \<and> s ! p = c \<and> c \<notin> set (drop (Suc p) s))"

text \<open>The 5-bit value of a character of the alphabet.\<close>

definition symbol_of :: "char \<Rightarrow> uint8" where
  "symbol_of c = (case indexOf CHARSET c of Some d \<Rightarrow> of_nat d | None \<Rightarrow> 0)"

text \<open>The errors of the structural checks of \<open>decodeTo5BitArray\<close>.\<close>

fun structural :: "error \<Rightarrow> bool" where
  "structural MissingSeparator = True"
| "structural (SeparatorTooEarly p) = True"
| "structural (InsufficientData p) = True"
| "structural (InvalidCharacter c) = True"
| "structural e = False"

text \<open>A lowercased text passes the structural checks with its separator at \<open>p\<close>: the last
  separator is at \<open>p\<close>, which is not 0, at least six characters follow it, and all of them
  are in the alphabet.\<close>

definition well_formed :: "string \<Rightarrow> nat \<Rightarrow> bool" where
  "well_formed s p = (last_occurrence s SEPARATOR p \<and> 0 < p \<and> 6 \<le> length s - Suc p \<and>
     list_all (\<lambda>c. c \<in> set CHARSET) (drop (Suc p) s))"

text \<open>The characters of a human-readable part: lowercase letters and digits.\<close>

definition lowercase_letter :: "char \<Rightarrow> bool" where
  "lowercase_letter c = (c \<in> set ''abcdefghijklmnopqrstuvwxyz'')"

definition digit :: "char \<Rightarrow> bool" where
  "digit c = (c \<in> set ''0123456789'')"

text \<open>The feedback of one step of \<open>polymod\<close>: the generator constants selected by the bits
  of \<open>top\<close>.\<close>

definition feedback :: "int32 \<Rightarrow> int32" where
  "feedback t =
     (if bit t 0 then 0x3b6a57b2 else 0) XOR (if bit t 1 then 0x26508e6d else 0) XOR
     (if bit t 2 then 0x1ea119fa else 0) XOR (if bit t 3 then 0x3d4233dd else 0) XOR
     (if bit t 4 then 0x2a1462b3 else 0)"

text \<open>A 30-bit value cut into six 5-bit symbols, the most significant first.\<close>

definition slice30 :: "nat \<Rightarrow> nat list" where
  "slice30 m = map (\<lambda>i. (m div 2 ^ (5 * (5 - i))) mod 32) [0..<6]"

text \<open>The lowest \<open>n\<close> bits of a number, the most significant first.\<close>

definition bits_of :: "nat \<Rightarrow> int32 \<Rightarrow> bool list" where
  "bits_of n w = map (bit w) (rev [0..<n])"

text \<open>The bits of a sequence of units of \<open>n\<close> bits each.\<close>

definition bit_stream :: "nat \<Rightarrow> int32 list \<Rightarrow> bool list" where
  "bit_stream n ws = concat (map (bits_of n) ws)"

section \<open>Strings\<close>

lemma lastIndexOf_None: "lastIndexOf s c = None \<longleftrightarrow> c \<notin> set s"
  by (induction s) (auto split: option.splits)

lemma lastIndexOf_Some: "lastIndexOf s c = Some p \<longleftrightarrow> p < length s \<and> s ! p = c \<and> c \<notin> set (drop (Suc p) s)"
proof (induction s arbitrary: p)
  case Nil
  then show ?case by simp
next
  case (Cons x xs)
  show ?case
  proof (cases "lastIndexOf xs c")
    case None
    then have notin: "c \<notin> set xs" by (simp add: lastIndexOf_None)
    show ?thesis
    proof (cases p)
      case 0
      with None notin show ?thesis by auto
    next
      case (Suc q)
      have "q < length xs \<Longrightarrow> xs ! q \<noteq> c" using notin by auto
      with None Suc show ?thesis by auto
    qed
  next
    case (Some i)
    then have i: "i < length xs" "xs ! i = c" "c \<notin> set (drop (Suc i) xs)"
      using Cons.IH [of i] by auto
    show ?thesis
    proof (cases p)
      case 0
      have "c \<in> set xs" using i by (metis nth_mem)
      with Some 0 show ?thesis by auto
    next
      case (Suc q)
      with Some Cons.IH [of q] show ?thesis by auto
    qed
  qed
qed

lemma lastIndexOf_last_occurrence: "lastIndexOf s c = Some p \<longleftrightarrow> last_occurrence s c p"
  by (simp add: lastIndexOf_Some last_occurrence_def)

lemma lastIndexOf_append: "c \<notin> set ys \<Longrightarrow> lastIndexOf (xs @ c # ys) c = Some (length xs)"
  by (simp add: lastIndexOf_Some nth_append)

lemma indexOf_None: "indexOf s c = None \<longleftrightarrow> c \<notin> set s"
  by (induction s) auto


lemma indexOf_nth: "distinct s \<Longrightarrow> d < length s \<Longrightarrow> indexOf s (s ! d) = Some d"
proof (induction s arbitrary: d)
  case Nil
  then show ?case by simp
next
  case (Cons x xs)
  then show ?case by (cases d) auto
qed

lemma length_toLowerCase [simp]: "length (toLowerCase s) = length s"
  by (simp add: toLowerCase_def)

section \<open>The structural checks of decoding\<close>

lemma decode_symbols_Inr:
  "list_all (\<lambda>c. c \<in> set CHARSET) cs \<Longrightarrow> decode_symbols cs = Inr (map symbol_of cs)"
  by (induction cs) (auto simp: symbol_of_def indexOf_None split: option.splits)

lemma decode_symbols_Inl:
  "\<not> list_all (\<lambda>c. c \<in> set CHARSET) cs \<Longrightarrow> \<exists>c. decode_symbols cs = Inl (InvalidCharacter c)"
proof (induction cs)
  case Nil
  then show ?case by simp
next
  case (Cons a cs)
  show ?case
  proof (cases "indexOf CHARSET a")
    case None
    then show ?thesis by simp
  next
    case (Some d)
    then have "a \<in> set CHARSET" by (metis indexOf_None option.distinct(1))
    with Cons.prems have "\<not> list_all (\<lambda>c. c \<in> set CHARSET) cs" by simp
    with Cons.IH obtain c where "decode_symbols cs = Inl (InvalidCharacter c)" by blast
    with Some show ?thesis by simp
  qed
qed

lemma decode_symbols_length: "decode_symbols cs = Inr ds \<Longrightarrow> length ds = length cs"
  by (induction cs arbitrary: ds) (auto split: option.splits sum.splits)

lemma decodeTo5BitArray_well_formed:
  assumes "well_formed (toLowerCase bech) p"
  shows "decodeTo5BitArray bech =
     (let s = toLowerCase bech; d5 = map symbol_of (drop (Suc p) s) in
      if \<not> verifyChecksum (take p s) d5 then Inr None
      else Inr (Some \<lparr>humanReadablePart = take p s, data = take (length d5 - 6) d5\<rparr>))"
proof -
  let ?s = "toLowerCase bech"
  from assms have li: "lastIndexOf ?s SEPARATOR = Some p"
    by (simp add: well_formed_def lastIndexOf_last_occurrence)
  from assms have p: "0 < p" "\<not> length ?s < p + 7"
    by (auto simp: well_formed_def last_occurrence_def)
  from assms have "decode_symbols (drop (Suc p) ?s) = Inr (map symbol_of (drop (Suc p) ?s))"
    by (simp add: well_formed_def decode_symbols_Inr)
  with li p show ?thesis
    by (simp add: decodeTo5BitArray_def Let_def)
qed

lemma decodeTo5BitArray_ill_formed:
  assumes "\<And>p. \<not> well_formed (toLowerCase bech) p"
  shows "\<exists>e. structural e \<and> decodeTo5BitArray bech = Inl e"
proof (cases "lastIndexOf (toLowerCase bech) SEPARATOR")
  case None
  then show ?thesis by (auto simp: decodeTo5BitArray_def Let_def intro: exI [of _ MissingSeparator])
next
  case (Some p)
  let ?s = "toLowerCase bech"
  from Some have lo: "last_occurrence ?s SEPARATOR p"
    by (simp add: lastIndexOf_last_occurrence)
  show ?thesis
  proof (cases "p < 1")
    case True
    with Some show ?thesis
      by (auto simp: decodeTo5BitArray_def Let_def intro: exI [of _ "SeparatorTooEarly p"])
  next
    case False
    note p = this
    show ?thesis
    proof (cases "length ?s < p + 7")
      case True
      with Some p show ?thesis
        by (auto simp: decodeTo5BitArray_def Let_def intro: exI [of _ "InsufficientData p"])
    next
      case False
      with lo p assms [of p] have "\<not> list_all (\<lambda>c. c \<in> set CHARSET) (drop (Suc p) ?s)"
        by (auto simp: well_formed_def)
      then obtain c where "decode_symbols (drop (Suc p) ?s) = Inl (InvalidCharacter c)"
        using decode_symbols_Inl by blast
      with Some p False show ?thesis
        by (auto simp: decodeTo5BitArray_def Let_def intro: exI [of _ "InvalidCharacter c"])
    qed
  qed
qed

lemma well_formed_lastIndexOf: "well_formed s p \<Longrightarrow> lastIndexOf s SEPARATOR = Some p"
  by (simp add: well_formed_def lastIndexOf_last_occurrence)

lemma decodeTo5BitArray_separator_checks:
  fixes bech :: string
  defines "s \<equiv> toLowerCase bech"
  shows "(decodeTo5BitArray bech = Inl MissingSeparator \<longleftrightarrow> (\<forall>p. \<not> last_occurrence s SEPARATOR p))
       \<and> ((\<exists>q. decodeTo5BitArray bech = Inl (SeparatorTooEarly q)) \<longleftrightarrow> last_occurrence s SEPARATOR 0)
       \<and> ((\<exists>q. decodeTo5BitArray bech = Inl (InsufficientData q)) \<longleftrightarrow>
            (\<exists>p. last_occurrence s SEPARATOR p \<and> 0 < p \<and> length s - Suc p < 6))"
proof (cases "lastIndexOf s SEPARATOR")
  case None
  then have "\<And>p. \<not> last_occurrence s SEPARATOR p"
    by (metis lastIndexOf_last_occurrence option.distinct(1))
  with None show ?thesis
    by (simp add: decodeTo5BitArray_def s_def [symmetric] Let_def)
next
  case (Some p)
  then have lo: "last_occurrence s SEPARATOR p"
    by (simp add: lastIndexOf_last_occurrence)
  have uniq: "\<And>q. last_occurrence s SEPARATOR q \<longleftrightarrow> q = p"
    using Some by (metis lastIndexOf_last_occurrence option.inject)
  have sym: "\<And>cs e. decode_symbols cs = Inl e \<Longrightarrow> \<exists>c. e = InvalidCharacter c"
    by (metis decode_symbols_Inl decode_symbols_Inr sum.distinct(1) sum.inject(1))
  show ?thesis
  proof (cases "p = 0")
    case True
    with Some uniq show ?thesis
      by (simp add: decodeTo5BitArray_def s_def [symmetric] Let_def)
  next
    case False
    note p = this
    show ?thesis
    proof (cases "length s < p + 7")
      case True
      with Some uniq p show ?thesis
        by (auto simp add: decodeTo5BitArray_def s_def [symmetric] Let_def)
    next
      case False
      have "\<And>e. decodeTo5BitArray bech = Inl e \<Longrightarrow> \<exists>c. e = InvalidCharacter c"
        using Some p False sym
        by (auto simp add: decodeTo5BitArray_def s_def [symmetric] Let_def split: sum.splits if_splits)
      then have "decodeTo5BitArray bech \<noteq> Inl MissingSeparator"
        "\<And>q. decodeTo5BitArray bech \<noteq> Inl (SeparatorTooEarly q)"
        "\<And>q. decodeTo5BitArray bech \<noteq> Inl (InsufficientData q)"
        by fastforce+
      with uniq p False show ?thesis by auto
    qed
  qed
qed

text \<open>\<open>decode\<close> adds no structural error of its own: \<open>from5Bit\<close> throws the two padding
  errors only.\<close>

lemma convertBits_error:
  "convertBits bytes fromBits toBits padding = Some (Inl e) \<Longrightarrow> e = ExcessPadding \<or> e = NonZeroPadding"
  by (auto simp: convertBits_def Let_def split: option.splits if_splits)

lemma decode_structural:
  assumes "structural e"
  shows "decode bech = Some (Inl e) \<longleftrightarrow> decodeTo5BitArray bech = Inl e"
proof (cases "decodeTo5BitArray bech")
  case (Inl e')
  then show ?thesis by (simp add: decode_def)
next
  case (Inr r)
  show ?thesis
  proof (cases r)
    case None
    with Inr show ?thesis by (simp add: decode_def)
  next
    case (Some result)
    have "from5Bit (data result) \<noteq> Some (Inl e)"
      using assms convertBits_error [of "data result" 5 8 False e]
      by (auto simp: from5Bit_def)
    with Inr Some show ?thesis
      by (auto simp: decode_def split: option.splits sum.splits)
  qed
qed

text \<open>A decoded result has the text before the last separator as its human-readable part.\<close>

lemma decodeTo5BitArray_Some:
  assumes "decodeTo5BitArray bech = Inr (Some r)"
  shows "\<exists>p. well_formed (toLowerCase bech) p \<and> humanReadablePart r = take p (toLowerCase bech)"
proof -
  have "\<exists>p. well_formed (toLowerCase bech) p"
  proof (rule ccontr)
    assume "\<not> (\<exists>p. well_formed (toLowerCase bech) p)"
    then obtain e where "decodeTo5BitArray bech = Inl e"
      using decodeTo5BitArray_ill_formed [of bech] by blast
    with assms show False by simp
  qed
  then obtain p where p: "well_formed (toLowerCase bech) p" by blast
  from assms have "humanReadablePart r = take p (toLowerCase bech)"
    unfolding decodeTo5BitArray_well_formed [OF p] Let_def
    by (auto split: if_splits)
  with p show ?thesis by blast
qed

lemma decode_Some:
  assumes "decode bech = Some (Inr (Some r))"
  shows "\<exists>p. last_occurrence (toLowerCase bech) SEPARATOR p
           \<and> humanReadablePart r = take p (toLowerCase bech)"
proof -
  from assms obtain r' where "decodeTo5BitArray bech = Inr (Some r')"
    and "humanReadablePart r = humanReadablePart r'"
    by (auto simp: decode_def split: sum.splits option.splits)
  then show ?thesis
    using decodeTo5BitArray_Some [of bech r'] by (auto simp: well_formed_def)
qed

text \<open>
  Claim C4. \<open>decode\<close> takes the last occurrence of the separator in the lowercased text: the
  human-readable part of a result is the text before it. \<open>decode\<close> throws the
  missing-separator error exactly when the text has no separator, the separator-too-early
  error exactly when the last separator is at position 0, and the insufficient-data error
  exactly when the last separator is at a later position and fewer than six characters follow
  it. The three checks come in this order and before the alphabet lookup and the checksum:
  the result is fixed whatever the characters after the separator are.
\<close>

theorem decode_separator_checks:
  fixes bech :: string
  defines "s \<equiv> toLowerCase bech"
  shows "(decode bech = Some (Inl MissingSeparator) \<longleftrightarrow> (\<forall>p. \<not> last_occurrence s SEPARATOR p))
       \<and> ((\<exists>q. decode bech = Some (Inl (SeparatorTooEarly q))) \<longleftrightarrow> last_occurrence s SEPARATOR 0)
       \<and> ((\<exists>q. decode bech = Some (Inl (InsufficientData q))) \<longleftrightarrow>
            (\<exists>p. last_occurrence s SEPARATOR p \<and> 0 < p \<and> length s - Suc p < 6))
       \<and> (\<forall>r. decode bech = Some (Inr (Some r)) \<longrightarrow>
            (\<exists>p. last_occurrence s SEPARATOR p \<and> humanReadablePart r = take p s))"
  unfolding s_def using decodeTo5BitArray_separator_checks [of bech] decode_Some [of bech]
  by (simp add: decode_structural)

theorem decode_separator_checks_witness:
  "decode ''ab'' = Some (Inl MissingSeparator)
   \<and> (\<exists>q. decode ''1b1c'' = Some (Inl (InsufficientData q)))
   \<and> (\<exists>p. last_occurrence ''a1a1mykhnm'' SEPARATOR p \<and> ''a1a'' = take p ''a1a1mykhnm'')"
proof -
  have "\<not> last_occurrence (toLowerCase ''ab'') SEPARATOR p" for p
    by (simp add: lastIndexOf_last_occurrence [symmetric] toLowerCase_def toLowerCase_char_def
        SEPARATOR_def)
  then have 1: "decode ''ab'' = Some (Inl MissingSeparator)"
    using decode_separator_checks [of "''ab''"] by blast
  have "last_occurrence (toLowerCase ''1b1c'') SEPARATOR 2 \<and> (0::nat) < 2
      \<and> length (toLowerCase ''1b1c'') - Suc 2 < 6"
    by (simp add: last_occurrence_def toLowerCase_def toLowerCase_char_def SEPARATOR_def)
  then have 2: "\<exists>q. decode ''1b1c'' = Some (Inl (InsufficientData q))"
    using decode_separator_checks [of "''1b1c''"] by blast
  have low: "toLowerCase ''a1a1mykhnm'' = ''a1a1mykhnm''"
    by (simp add: toLowerCase_def toLowerCase_char_def)
  have "decode ''a1a1mykhnm'' = Some (Inr (Some \<lparr>humanReadablePart = ''a1a'', data = []\<rparr>))"
    by code_simp
  then have 3: "\<exists>p. last_occurrence ''a1a1mykhnm'' SEPARATOR p \<and> ''a1a'' = take p ''a1a1mykhnm''"
    using decode_separator_checks [of "''a1a1mykhnm''"] unfolding low by fastforce
  from 1 2 3 show ?thesis by simp
qed

text \<open>
  Claim C3. A text that passes every structural check (its lowercased form is well formed
  with the separator at \<open>p\<close>) and whose checksum does not verify makes \<open>decode\<close> return
  \<open>undefined\<close>, without throwing; a text that violates a structural check makes \<open>decode\<close>
  throw one of the structural errors.
\<close>

theorem decode_soft_failure_or_throw:
  "(well_formed (toLowerCase bech) p \<and>
      \<not> verifyChecksum (take p (toLowerCase bech)) (map symbol_of (drop (Suc p) (toLowerCase bech)))
      \<longrightarrow> decode bech = Some (Inr None))
   \<and> ((\<forall>q. \<not> well_formed (toLowerCase bech) q)
      \<longrightarrow> (\<exists>e. structural e \<and> decode bech = Some (Inl e)))"
proof (intro conjI impI)
  assume "well_formed (toLowerCase bech) p \<and>
      \<not> verifyChecksum (take p (toLowerCase bech)) (map symbol_of (drop (Suc p) (toLowerCase bech)))"
  then have wf: "well_formed (toLowerCase bech) p"
    and nv: "\<not> verifyChecksum (take p (toLowerCase bech)) (map symbol_of (drop (Suc p) (toLowerCase bech)))"
    by simp_all
  show "decode bech = Some (Inr None)"
    by (simp add: decode_def decodeTo5BitArray_well_formed [OF wf] Let_def nv)
next
  assume "\<forall>q. \<not> well_formed (toLowerCase bech) q"
  then obtain e where "structural e" "decodeTo5BitArray bech = Inl e"
    using decodeTo5BitArray_ill_formed by blast
  then show "\<exists>e. structural e \<and> decode bech = Some (Inl e)"
    by (auto simp: decode_def)
qed

theorem decode_soft_failure_or_throw_witness:
  "decode ''a1qqqqqq'' = Some (Inr None) \<and>
   (\<exists>e. structural e \<and> decode ''a1qqbqqq'' = Some (Inl e))"
proof -
  have wf: "well_formed (toLowerCase ''a1qqqqqq'') 1"
    by (simp add: well_formed_def last_occurrence_def toLowerCase_def toLowerCase_char_def
        SEPARATOR_def CHARSET_def)
  have nv: "\<not> verifyChecksum (take 1 (toLowerCase ''a1qqqqqq''))
      (map symbol_of (drop (Suc 1) (toLowerCase ''a1qqqqqq'')))"
    by code_simp
  have soft: "decode ''a1qqqqqq'' = Some (Inr None)"
    using decode_soft_failure_or_throw [of "''a1qqqqqq''" 1] wf nv by blast
  have "\<not> well_formed (toLowerCase ''a1qqbqqq'') q" for q
  proof
    assume a: "well_formed (toLowerCase ''a1qqbqqq'') q"
    then have "lastIndexOf (toLowerCase ''a1qqbqqq'') SEPARATOR = Some q"
      by (rule well_formed_lastIndexOf)
    then have "q = 1"
      by (simp add: toLowerCase_def toLowerCase_char_def SEPARATOR_def)
    with a show False
      by (simp add: well_formed_def toLowerCase_def toLowerCase_char_def CHARSET_def)
  qed
  then have "\<exists>e. structural e \<and> decode ''a1qqbqqq'' = Some (Inl e)"
    using decode_soft_failure_or_throw [of "''a1qqbqqq''"] by blast
  with soft show ?thesis by simp
qed

section \<open>Conversion between bit widths\<close>

lemma convertBits_while_step:
  "toBits \<le> bits \<Longrightarrow> convertBits_while toBits maxV v bits res =
     convertBits_while toBits maxV v (bits - toBits) (res @ [js_sar v (bits - toBits) AND maxV])"
  by (subst convertBits_while.simps) simp

lemma convertBits_while_done:
  "bits < toBits \<Longrightarrow> convertBits_while toBits maxV v bits res = Some (bits, res)"
  by (subst convertBits_while.simps) simp

lemma convertBits_while_total:
  assumes "0 < toBits"
  shows "\<exists>out. convertBits_while toBits maxV v bits res = Some (bits mod toBits, res @ out)
           \<and> list_all (\<lambda>x. x AND maxV = x) out"
proof (induction bits arbitrary: res rule: less_induct)
  case (less bits)
  show ?case
  proof (cases "bits < toBits")
    case True
    then show ?thesis by (simp add: convertBits_while_done)
  next
    case False
    then have le: "toBits \<le> bits" by simp
    with assms have "bits - toBits < bits" by simp
    from less [OF this, of "res @ [js_sar v (bits - toBits) AND maxV]"]
    obtain out where out: "convertBits_while toBits maxV v (bits - toBits)
         (res @ [js_sar v (bits - toBits) AND maxV])
       = Some ((bits - toBits) mod toBits, (res @ [js_sar v (bits - toBits) AND maxV]) @ out)"
      "list_all (\<lambda>x. x AND maxV = x) out"
      by blast
    have "(bits - toBits) mod toBits = bits mod toBits"
      using le by (simp add: le_mod_geq)
    with out le show ?thesis
      by (intro exI [of _ "(js_sar v (bits - toBits) AND maxV) # out"])
         (simp add: convertBits_while_step and.assoc)
  qed
qed

lemma convertBits_for_total:
  assumes "0 < toBits"
  shows "bits < toBits \<Longrightarrow> \<exists>val out. convertBits_for fromBits toBits maxV ds v bits res
            = Some (val, (bits + fromBits * length ds) mod toBits, res @ out)
           \<and> list_all (\<lambda>x. x AND maxV = x) out"
proof (induction ds arbitrary: v bits res)
  case Nil
  then show ?case by simp
next
  case (Cons d ds)
  let ?v = "js_shl v fromBits OR ucast d"
  obtain out1 where out1: "convertBits_while toBits maxV ?v (bits + fromBits) res
       = Some ((bits + fromBits) mod toBits, res @ out1)" "list_all (\<lambda>x. x AND maxV = x) out1"
    using convertBits_while_total [OF assms] by blast
  have "(bits + fromBits) mod toBits < toBits" using assms by simp
  from Cons.IH [OF this, of ?v "res @ out1"]
  obtain val out2 where out2: "convertBits_for fromBits toBits maxV ds ?v
       ((bits + fromBits) mod toBits) (res @ out1)
       = Some (val, ((bits + fromBits) mod toBits + fromBits * length ds) mod toBits,
               (res @ out1) @ out2)" "list_all (\<lambda>x. x AND maxV = x) out2"
    by blast
  have "((bits + fromBits) mod toBits + fromBits * length ds) mod toBits
      = (bits + fromBits * length (d # ds)) mod toBits"
    by (simp add: mod_add_left_eq add.assoc)
  with out1 out2 show ?case
    by (intro exI [of _ val] exI [of _ "out1 @ out2"]) (simp add: Let_def)
qed

lemma maxV_mask: "js_shl 1 toBits - 1 = mask (toBits mod 32)"
  by (simp add: js_shl_def mask_eq_exp_minus_1)

lemma unat_ucast_maxV:
  fixes x :: int32
  assumes "x AND (js_shl 1 toBits - 1) = x"
  shows "unat (ucast x :: uint8) < 2 ^ toBits"
proof -
  have x: "x = take_bit (toBits mod 32) x"
    using assms by (simp add: maxV_mask take_bit_eq_mask)
  have "unat (ucast x :: uint8) \<le> unat x"
    by (simp add: unsigned_ucast_eq)
  also have "unat x = take_bit (toBits mod 32) (unat x)"
    by (subst x) (simp add: unsigned_take_bit_eq)
  also have "\<dots> < 2 ^ (toBits mod 32)"
    by (rule take_bit_nat_less_exp)
  also have "\<dots> \<le> 2 ^ toBits"
    by (rule power_increasing) simp_all
  finally show ?thesis .
qed

text \<open>
  Claim C5, as amended. With \<open>toBits\<close> positive the loops of \<open>convertBits\<close> end, and the
  number of buffered bits left is \<open>fromBits * length bytes mod toBits\<close>. Without padding the
  call throws the excess-padding error exactly when that number is at least \<open>fromBits\<close>;
  it throws the non-zero-padding error exactly when that number is below \<open>fromBits\<close> and the
  left bits, shifted to the width \<open>toBits\<close> and masked, are not zero; and it returns exactly in
  the remaining case, every unit of the output below \<open>2 ^ toBits\<close>. The direction from 5 to
  8 bits of \<open>from5Bit\<close> is the case \<open>fromBits = 5\<close>, \<open>toBits = 8\<close>.
\<close>

theorem convertBits_no_padding:
  assumes "0 < toBits"
  shows "\<exists>val bits res. convertBits_for fromBits toBits (js_shl 1 toBits - 1) bytes 0 0 [] = Some (val, bits, res)
     \<and> bits = (fromBits * length bytes) mod toBits
     \<and> (convertBits bytes fromBits toBits False = Some (Inl ExcessPadding) \<longleftrightarrow> fromBits \<le> bits)
     \<and> (convertBits bytes fromBits toBits False = Some (Inl NonZeroPadding) \<longleftrightarrow>
          bits < fromBits \<and> js_shl val (toBits - bits) AND (js_shl 1 toBits - 1) \<noteq> 0)
     \<and> ((\<exists>out. convertBits bytes fromBits toBits False = Some (Inr out)
              \<and> list_all (\<lambda>x. unat x < 2 ^ toBits) out) \<longleftrightarrow>
          bits < fromBits \<and> js_shl val (toBits - bits) AND (js_shl 1 toBits - 1) = 0)"
proof -
  let ?maxV = "js_shl 1 toBits - 1 :: int32"
  from assms obtain val out where st: "convertBits_for fromBits toBits ?maxV bytes 0 0 []
      = Some (val, (0 + fromBits * length bytes) mod toBits, [] @ out)"
    and out: "list_all (\<lambda>x. x AND ?maxV = x) out"
    using convertBits_for_total [OF assms, of 0 fromBits ?maxV bytes 0 "[]"] by blast
  have "list_all (\<lambda>x. unat x < 2 ^ toBits) (map ucast out :: uint8 list)"
    using out by (simp add: list_all_iff unat_ucast_maxV)
  with st show ?thesis
    by (intro exI [of _ val] exI [of _ "(fromBits * length bytes) mod toBits"] exI [of _ out])
       (auto simp: convertBits_def Let_def)
qed

theorem convertBits_no_padding_witness:
  "0 < (8::nat) \<and> convertBits [31, 31] 5 8 False = Some (Inl NonZeroPadding)"
proof -
  obtain val bits res where
    st: "convertBits_for 5 8 (js_shl 1 8 - 1) [31, 31] 0 0 [] = Some (val, bits, res)"
    and nz: "convertBits [31, 31] 5 8 False = Some (Inl NonZeroPadding) \<longleftrightarrow>
          bits < 5 \<and> js_shl val (8 - bits) AND (js_shl 1 8 - 1) \<noteq> 0"
    using convertBits_no_padding [of 8 5 "[31, 31]"] by auto
  have "convertBits_for 5 8 (js_shl 1 8 - 1) [31, 31] 0 0 [] = Some (1023, 2, [255])"
    by code_simp
  with st have "val = 1023" "bits = 2" by simp_all
  moreover have "js_shl 1023 (8 - 2) AND (js_shl 1 8 - 1) \<noteq> 0"
    by (simp add: js_shl_def)
  ultimately show ?thesis using nz by simp
qed

text \<open>
  The claim as it was stated, "the non-zero-padding error exactly when the shifted, masked
  left bits are not zero", fails at the single symbol 31: five bits are left, they are not
  zero, and the error thrown is the excess-padding error, whose check comes first.
\<close>

theorem convertBits_no_padding_counterexample:
  "convertBits_for 5 8 (js_shl 1 8 - 1) [31] 0 0 [] = Some (31, 5, [])
   \<and> js_shl 31 (8 - 5) AND (js_shl 1 8 - 1) = 248
   \<and> convertBits [31] 5 8 False = Some (Inl ExcessPadding)
   \<and> from5Bit [31] = Some (Inl ExcessPadding)
   \<and> from5Bit [31] \<noteq> Some (Inl NonZeroPadding)"
  by code_simp

section \<open>The pattern pre-check and the structural checks\<close>

lemma toLowerCase_char_lowercase_letter: "lowercase_letter c \<Longrightarrow> toLowerCase_char c = c"
  by (auto simp: lowercase_letter_def toLowerCase_char_def)

lemma toLowerCase_char_digit: "digit c \<Longrightarrow> toLowerCase_char c = c"
  by (auto simp: digit_def toLowerCase_char_def)

lemma toLowerCase_char_CHARSET: "c \<in> set CHARSET \<Longrightarrow> toLowerCase_char c = c"
  by (auto simp: CHARSET_def toLowerCase_char_def)

lemma toLowerCase_char_SEPARATOR: "toLowerCase_char SEPARATOR = SEPARATOR"
  by (simp add: SEPARATOR_def toLowerCase_char_def)

lemma SEPARATOR_notin_CHARSET: "SEPARATOR \<notin> set CHARSET"
  by (simp add: SEPARATOR_def CHARSET_def)


lemma pattern_character_digit: "digit c \<Longrightarrow> pattern_character c"
  by (auto simp: digit_def pattern_character_def)

lemma toLowerCase_fixed: "list_all (\<lambda>c. toLowerCase_char c = c) s \<Longrightarrow> toLowerCase s = s"
  by (induction s) (simp_all add: toLowerCase_def)

text \<open>What a text accepted by the pattern looks like.\<close>

lemma matches_True:
  assumes "matches hrp (Some bech32Text) = Some True"
  shows "\<exists>rest. bech32Text = hrp @ SEPARATOR # rest \<and> 6 \<le> length rest
           \<and> list_all (\<lambda>c. c \<in> set CHARSET) rest"
proof -
  from assms have tk: "take (length hrp) bech32Text = hrp"
    by (auto simp: matches_def split: if_splits)
  from assms obtain c rest where dr: "drop (length hrp) bech32Text = c # rest"
    and c: "c = CHR ''1''" and rest: "6 \<le> length rest" "list_all (\<lambda>x. x \<in> set CHARSET) rest"
    by (auto simp: matches_def split: if_splits list.splits)
  have "bech32Text = take (length hrp) bech32Text @ drop (length hrp) bech32Text"
    by simp
  with tk dr c have "bech32Text = hrp @ SEPARATOR # rest"
    by (simp add: SEPARATOR_def)
  with rest show ?thesis by blast
qed

lemma well_formed_shape:
  assumes "hrp \<noteq> []" and "6 \<le> length rest" and "list_all (\<lambda>c. c \<in> set CHARSET) rest"
  shows "well_formed (hrp @ SEPARATOR # rest) (length hrp)"
proof -
  have "SEPARATOR \<notin> set rest"
    using assms(3) SEPARATOR_notin_CHARSET by (auto simp: list_all_iff)
  with assms show ?thesis
    by (simp add: well_formed_def last_occurrence_def nth_append)
qed

text \<open>
  Claim C9. For a human-readable part that is not empty and consists of lowercase letters
  and digits, a text that \<open>matches\<close> accepts passes every structural check:
  \<open>decodeTo5BitArray\<close> does not throw, it returns a decoded result or \<open>undefined\<close>.
\<close>

theorem matches_decodeTo5BitArray_no_throw:
  assumes "hrp \<noteq> []"
    and "list_all (\<lambda>c. lowercase_letter c \<or> digit c) hrp"
    and "matches hrp (Some bech32Text) = Some True"
  shows "decodeTo5BitArray bech32Text = Inr None
       \<or> (\<exists>d5. decodeTo5BitArray bech32Text = Inr (Some \<lparr>humanReadablePart = hrp, data = d5\<rparr>))"
proof -
  from assms(3) obtain rest where shape: "bech32Text = hrp @ SEPARATOR # rest"
    and rest: "6 \<le> length rest" "list_all (\<lambda>c. c \<in> set CHARSET) rest"
    using matches_True by blast
  have "list_all (\<lambda>c. toLowerCase_char c = c) hrp"
    using assms(2) toLowerCase_char_lowercase_letter toLowerCase_char_digit
    by (auto simp: list_all_iff)
  moreover have "list_all (\<lambda>c. toLowerCase_char c = c) rest"
    using rest(2) toLowerCase_char_CHARSET by (auto simp: list_all_iff)
  ultimately have "list_all (\<lambda>c. toLowerCase_char c = c) bech32Text"
    by (simp add: shape toLowerCase_char_SEPARATOR)
  then have low: "toLowerCase bech32Text = bech32Text"
    by (rule toLowerCase_fixed)
  have "well_formed bech32Text (length hrp)"
    unfolding shape using assms(1) rest by (rule well_formed_shape)
  then have wf: "well_formed (toLowerCase bech32Text) (length hrp)"
    by (simp add: low)
  have "take (length hrp) bech32Text = hrp"
    by (simp add: shape)
  then have "take (length hrp) (toLowerCase bech32Text) = hrp"
    by (simp only: low)
  then show ?thesis
    by (simp add: decodeTo5BitArray_well_formed [OF wf] Let_def)
qed

theorem matches_decodeTo5BitArray_no_throw_witness:
  "matches ''a1'' (Some ''a11qqqqqq'') = Some True \<and> decodeTo5BitArray ''a11qqqqqq'' = Inr None"
proof -
  have h1: "''a1'' \<noteq> []" by simp
  have h2: "list_all (\<lambda>c. lowercase_letter c \<or> digit c) ''a1''"
    by (simp add: lowercase_letter_def digit_def)
  have h3: "matches ''a1'' (Some ''a11qqqqqq'') = Some True"
    by (simp add: matches_def pattern_character_def CHARSET_def)
  have "\<not> verifyChecksum ''a1'' (map symbol_of ''qqqqqq'')" by code_simp
  then have "decodeTo5BitArray ''a11qqqqqq'' \<noteq> Inr (Some \<lparr>humanReadablePart = ''a1'', data = d5\<rparr>)" for d5
    by code_simp
  with matches_decodeTo5BitArray_no_throw [OF h1 h2 h3] h3 show ?thesis by blast
qed

section \<open>The shape of an encoded text\<close>

lemma fold_append_concat: "fold (\<lambda>d r. r @ f d) xs r0 = r0 @ concat (map f xs)"
  by (induction xs arbitrary: r0) simp_all

lemma encode5BitArray_concat:
  "encode5BitArray hrp d5 =
     hrp @ SEPARATOR # concat (map (\<lambda>d. charAt CHARSET (unat d)) (d5 @ createChecksum hrp d5))"
  by (simp add: encode5BitArray_def Let_def fold_append_concat)

lemma length_CHARSET: "length CHARSET = 32"
  by (simp add: CHARSET_def)

lemma distinct_CHARSET: "distinct CHARSET"
  by (simp add: CHARSET_def)

lemma concat_charAt:
  "list_all (\<lambda>d. unat d < 32) ds \<Longrightarrow>
     concat (map (\<lambda>d. charAt CHARSET (unat d)) ds) = map (\<lambda>d. CHARSET ! unat d) ds"
  by (induction ds) (simp_all add: charAt_def length_CHARSET)

lemma length_createChecksum: "length (createChecksum hrp d5) = 6"
  by (simp add: createChecksum_def Let_def)

lemma createChecksum_symbols: "list_all (\<lambda>d. unat d < 32) (createChecksum hrp d5)"
proof -
  have "unat (ucast (x AND 31 :: int32) :: uint8) < 2 ^ 5" for x
    by (rule unat_ucast_maxV) (simp add: js_shl_def and.assoc)
  then show ?thesis
    by (simp add: createChecksum_def Let_def list_all_iff)
qed

lemma list_all_ucast_maxV:
  "list_all (\<lambda>x. x AND (js_shl 1 toBits - 1) = x) xs \<Longrightarrow>
     list_all (\<lambda>d. unat d < 2 ^ toBits) (map ucast xs :: uint8 list)"
  by (induction xs) (simp_all add: unat_ucast_maxV)

lemma to5Bit_total:
  "\<exists>d5. to5Bit bytes = Some (Inr d5) \<and> list_all (\<lambda>d. unat d < 32) d5"
proof -
  let ?maxV = "js_shl 1 5 - 1 :: int32"
  obtain val out where st: "convertBits_for 8 5 ?maxV bytes 0 0 []
      = Some (val, (0 + 8 * length bytes) mod 5, [] @ out)"
    and out: "list_all (\<lambda>x. x AND ?maxV = x) out"
    using convertBits_for_total [of 5 0 8 ?maxV bytes 0 "[]"] by auto
  let ?res = "if 0 < (8 * length bytes) mod 5
      then out @ [js_shl val (5 - (8 * length bytes) mod 5) AND ?maxV] else out"
  have "list_all (\<lambda>x. x AND ?maxV = x) ?res"
    using out by (simp add: and.assoc)
  then have "list_all (\<lambda>d. unat d < 2 ^ 5) (map ucast ?res :: uint8 list)"
    by (rule list_all_ucast_maxV)
  moreover have "to5Bit bytes = Some (Inr (map ucast ?res))"
    using st by (simp add: to5Bit_def convertBits_def Let_def)
  ultimately show ?thesis by simp
qed

lemma encode5BitArray_shape:
  assumes "list_all (\<lambda>d. unat d < 32) d5"
  shows "encode5BitArray hrp d5 =
     hrp @ SEPARATOR # map (\<lambda>d. CHARSET ! unat d) (d5 @ createChecksum hrp d5)"
proof -
  have "list_all (\<lambda>d. unat d < 32) (d5 @ createChecksum hrp d5)"
    using assms createChecksum_symbols by simp
  then show ?thesis
    by (simp only: encode5BitArray_concat concat_charAt)
qed




section \<open>The checksum\<close>

lemma js_sar_and_1: "i < 32 \<Longrightarrow> (js_sar t i AND 1 \<noteq> 0) = bit t i"
proof -
  assume i: "i < 32"
  have "(js_sar t i AND 1 \<noteq> 0) = bit (js_sar t i) 0"
    by (simp add: and_one_eq bit_0 mod_2_eq_odd)
  also have "\<dots> = bit t i"
    using i by (simp add: js_sar_def bit_signed_drop_bit_iff)
  finally show ?thesis .
qed

lemma fold_generator:
  "fold (\<lambda>i c. if js_sar t i AND 1 \<noteq> 0 then c XOR GENERATOR ! i else c) [0..<5] c
     = c XOR feedback t"
proof -
  have up: "[0..<5] = [0, 1, 2, 3, 4]" by (simp add: upt_rec)
  have ifx: "(if b then c XOR g else c) = c XOR (if b then g else 0)" for b and c g :: int32
    by simp
  have g: "GENERATOR ! 0 = 0x3b6a57b2" "GENERATOR ! Suc 0 = 0x26508e6d" "GENERATOR ! 2 = 0x1ea119fa"
    "GENERATOR ! 3 = 0x3d4233dd" "GENERATOR ! 4 = 0x2a1462b3"
    by (simp_all add: GENERATOR_def)
  show ?thesis
    unfolding up
    by (simp add: js_sar_and_1 g feedback_def ifx xor.assoc split del: if_split cong: if_cong)
qed

lemma polymod_step_feedback:
  "polymod_step v chk =
     push_bit 5 (take_bit 25 chk) XOR ucast v XOR feedback (signed_drop_bit 25 chk)"
proof -
  have m: "(0x1ffffff :: int32) = mask 25" by (simp add: mask_eq_exp_minus_1)
  have "polymod_step v chk = js_shl (chk AND 0x1ffffff) 5 XOR ucast v XOR feedback (js_sar chk 25)"
    by (simp only: polymod_step_def Let_def fold_generator xor.assoc)
  then show ?thesis
    by (simp add: js_shl_def js_sar_def m take_bit_eq_mask)
qed

subsection \<open>Linearity\<close>

lemma feedback_xor: "feedback (a XOR b) = feedback a XOR feedback b"
proof -
  have t: "(if bit (a XOR b) i then g else 0) = (if bit a i then g else 0) XOR (if bit b i then g else 0)"
    for i and g :: int32
    by (simp add: bit_xor_iff)
  show ?thesis
    unfolding feedback_def t by (simp only: xor.assoc xor.left_commute)
qed

lemma signed_drop_bit_xor:
  "signed_drop_bit n (a XOR b) = signed_drop_bit n a XOR signed_drop_bit n b"
  by (rule bit_eqI) (simp add: bit_signed_drop_bit_iff bit_xor_iff)

lemma ucast_xor: "(ucast (a XOR b :: uint8) :: int32) = ucast a XOR ucast b"
  by (rule bit_eqI) (simp add: bit_ucast_iff bit_xor_iff)

lemma polymod_step_xor:
  "polymod_step (v XOR w) (c XOR d) = polymod_step v c XOR polymod_step w d"
  by (simp only: polymod_step_feedback feedback_xor signed_drop_bit_xor ucast_xor take_bit_xor
      push_bit_xor xor.assoc xor.left_commute)

lemma feedback_0: "feedback 0 = 0"
  by (simp add: feedback_def)


lemma fold_polymod_step_xor:
  "length vs = length ws \<Longrightarrow>
     fold polymod_step (map2 (XOR) vs ws) (c XOR d) = fold polymod_step vs c XOR fold polymod_step ws d"
  by (induction vs ws arbitrary: c d rule: list_induct2) (simp_all add: polymod_step_xor)

subsection \<open>The state stays below 30 bits\<close>

lemma take_bit_30_feedback: "take_bit 30 (feedback t) = feedback t"
proof -
  have t: "take_bit 30 (if b then g else 0) = (if b then take_bit 30 g else 0)" for b and g :: int32
    by simp
  show ?thesis
    unfolding feedback_def take_bit_xor t by simp
qed

lemma take_bit_30_polymod_step: "take_bit 30 (polymod_step v c) = polymod_step v c"
proof -
  have 1: "take_bit 30 (push_bit 5 (take_bit 25 c)) = push_bit 5 (take_bit 25 c)"
    by (rule bit_eqI) (auto simp: bit_take_bit_iff bit_push_bit_iff)
  have 2: "take_bit 30 (ucast v :: int32) = ucast v"
    by (rule bit_eqI) (auto simp: bit_take_bit_iff bit_ucast_iff dest: bit_imp_le_length)
  show ?thesis
    by (simp only: polymod_step_feedback take_bit_xor 1 2 take_bit_30_feedback)
qed

lemma take_bit_30_fold_polymod_step:
  "take_bit 30 c = c \<Longrightarrow> take_bit 30 (fold polymod_step vs c) = fold polymod_step vs c"
  by (induction vs arbitrary: c) (simp_all add: take_bit_30_polymod_step)

lemma take_bit_30_polymod: "take_bit 30 (polymod vs) = polymod vs"
  unfolding polymod_def by (rule take_bit_30_fold_polymod_step) simp

subsection \<open>Six symbols fed into the zero state\<close>

lemma signed_drop_bit_30:
  fixes x :: int32
  assumes "take_bit 30 x = x"
  shows "signed_drop_bit k x = drop_bit k x"
proof (rule bit_eqI)
  fix n
  have hi: "\<not> bit x j" if "30 \<le> j" for j
    using that assms by (metis bit_take_bit_iff not_le)
  show "bit (signed_drop_bit k x) n = bit (drop_bit k x) n"
    by (auto simp: bit_signed_drop_bit_iff bit_drop_bit_eq hi)
qed

lemma polymod_step_small:
  assumes "take_bit 25 c = c"
  shows "polymod_step v c = push_bit 5 c XOR ucast v"
proof -
  have hi: "\<not> bit c j" if "25 \<le> j" for j
    using that assms by (metis bit_take_bit_iff not_le)
  have "signed_drop_bit 25 c = 0"
    by (rule bit_eqI) (auto simp: bit_signed_drop_bit_iff hi)
  with assms show ?thesis
    by (simp add: polymod_step_feedback feedback_0)
qed

lemma polymod_step_slice:
  fixes x :: int32
  assumes x: "take_bit 30 x = x" and k: "k \<le> 5"
  shows "polymod_step (ucast (js_sar x (5 * (5 - k)) AND 31)) (drop_bit (30 - 5 * k) x)
           = drop_bit (30 - 5 * Suc k) x"
proof -
  have hi: "\<not> bit x j" if "30 \<le> j" for j
    using that x by (metis bit_take_bit_iff not_le)
  have m: "(31 :: int32) = mask 5" by (simp add: mask_eq_exp_minus_1)
  have small: "take_bit 25 (drop_bit (30 - 5 * k) x) = drop_bit (30 - 5 * k) x"
  proof (rule bit_eqI)
    fix n
    have "n < 25" if "bit x (30 - 5 * k + n)"
    proof (rule ccontr)
      assume "\<not> n < 25"
      with k have "30 \<le> 30 - 5 * k + n" by simp
      with hi that show False by blast
    qed
    then show "bit (take_bit 25 (drop_bit (30 - 5 * k) x)) n = bit (drop_bit (30 - 5 * k) x) n"
      by (auto simp: bit_take_bit_iff bit_drop_bit_eq)
  qed
  have sar: "js_sar x (5 * (5 - k)) = drop_bit (25 - 5 * k) x"
    using k by (simp add: js_sar_def signed_drop_bit_30 [OF x] diff_mult_distrib2)
  have "push_bit 5 (drop_bit (30 - 5 * k) x)
          XOR ucast (ucast (drop_bit (25 - 5 * k) x AND mask 5) :: uint8)
        = drop_bit (25 - 5 * k) x"
  proof (rule bit_eqI)
    fix n
    assume "possible_bit TYPE(int32) n"
    then have n: "n < 32" by (simp add: possible_bit_def)
    show "bit (push_bit 5 (drop_bit (30 - 5 * k) x)
          XOR ucast (ucast (drop_bit (25 - 5 * k) x AND mask 5) :: uint8)) n
        = bit (drop_bit (25 - 5 * k) x) n"
    proof (cases "n < 5")
      case True
      then show ?thesis
        using n by (simp add: bit_xor_iff bit_push_bit_iff bit_ucast_iff bit_and_iff bit_mask_iff
            bit_drop_bit_eq)
    next
      case False
      then have "n - 5 + (30 - 5 * k) = 25 - 5 * k + n"
        using k by simp
      with False show ?thesis
        using n by (simp add: bit_xor_iff bit_push_bit_iff bit_ucast_iff bit_and_iff bit_mask_iff
            bit_drop_bit_eq)
    qed
  qed
  then show ?thesis
    by (simp add: polymod_step_small [OF small] sar m)
qed

lemma fold_polymod_step_slices:
  fixes x :: int32
  assumes x: "take_bit 30 x = x"
  shows "k \<le> 6 \<Longrightarrow>
    fold polymod_step (map (\<lambda>i. ucast (js_sar x (5 * (5 - i)) AND 31)) [0..<k]) 0
      = drop_bit (30 - 5 * k) x"
proof (induction k)
  case 0
  have "\<not> bit x (30 + n)" for n
    using x by (metis bit_take_bit_iff not_add_less1)
  then have "drop_bit 30 x = 0"
    by (intro bit_eqI) (simp add: bit_drop_bit_eq)
  then show ?case by simp
next
  case (Suc k)
  then have "k \<le> 5" by simp
  from polymod_step_slice [OF x this] Suc show ?case by simp
qed

subsection \<open>The checksum verifies\<close>

lemma map2_xor_zeros: "length cs = n \<Longrightarrow> map2 (XOR) (replicate n (0 :: uint8)) cs = cs"
  by (induction cs arbitrary: n) auto

lemma fold_polymod_step_checksum:
  fixes s :: int32
  defines "md \<equiv> fold polymod_step [0, 0, 0, 0, 0, 0] s XOR 1"
  shows "fold polymod_step (map (\<lambda>i. ucast (js_sar md (5 * (5 - i)) AND 31)) [0..<6]) s = 1"
proof -
  let ?cs = "map (\<lambda>i. ucast (js_sar md (5 * (5 - i)) AND 31) :: uint8) [0..<6]"
  have "take_bit 30 (fold polymod_step [0, 0, 0, 0, 0, 0] s) = fold polymod_step [0, 0, 0, 0, 0, 0] s"
    by (simp add: take_bit_30_polymod_step)
  then have md: "take_bit 30 md = md"
    by (simp add: md_def)
  have len: "length ?cs = 6" by simp
  have z: "replicate 6 (0 :: uint8) = [0, 0, 0, 0, 0, 0]"
    by (simp add: numeral_eq_Suc)
  have "fold polymod_step ?cs s = fold polymod_step (map2 (XOR) (replicate 6 0) ?cs) (s XOR 0)"
    by (simp only: map2_xor_zeros [OF len] xor.right_neutral)
  also have "\<dots> = fold polymod_step (replicate 6 0) s XOR fold polymod_step ?cs 0"
    by (rule fold_polymod_step_xor) simp
  also have "fold polymod_step ?cs 0 = drop_bit (30 - 5 * 6) md"
    by (rule fold_polymod_step_slices [OF md]) simp
  also have "fold polymod_step (replicate 6 0) s = md XOR 1"
    by (simp only: z md_def xor.assoc) simp
  finally show ?thesis
    by (simp add: xor.assoc xor.left_commute)
qed

lemma unat_slice:
  fixes md :: int32
  assumes md: "take_bit 30 md = md" and k: "k \<le> 25"
  shows "unat (ucast (js_sar md k AND 31) :: uint8) = (unat md div 2 ^ k) mod 32"
proof -
  have m: "(31 :: int32) = mask 5" by (simp add: mask_eq_exp_minus_1)
  have "take_bit 32 md = md"
    by (rule take_bit_word_eq_self) simp
  then have "unat md = unat (take_bit 32 md)" by simp
  also have "\<dots> = take_bit 32 (unat md)"
    by (rule unsigned_take_bit_eq)
  finally have tb: "take_bit 32 (unat md) = unat md" by simp
  have "js_sar md k AND 31 = take_bit 5 (drop_bit k md)"
    using k by (simp add: js_sar_def signed_drop_bit_30 [OF md] m take_bit_eq_mask)
  then have "unat (ucast (js_sar md k AND 31) :: uint8) = take_bit 8 (take_bit 5 (drop_bit k (unat md)))"
    by (simp add: unsigned_ucast_eq unsigned_take_bit_eq unsigned_drop_bit_eq tb)
  also have "\<dots> = (unat md div 2 ^ k) mod 32"
    by (simp add: take_bit_eq_mod drop_bit_eq_div)
  finally show ?thesis .
qed

lemma polymod_createChecksum:
  "polymod (humanReadablePartExpand hrp @ d5 @ createChecksum hrp d5) = 1"
proof -
  have "polymod (humanReadablePartExpand hrp @ d5 @ createChecksum hrp d5)
      = fold polymod_step (createChecksum hrp d5)
          (fold polymod_step (humanReadablePartExpand hrp @ d5) 1)"
    by (simp add: polymod_def)
  also have "\<dots> = 1"
    unfolding createChecksum_def Let_def polymod_def fold_append comp_apply
    by (rule fold_polymod_step_checksum)
  finally show ?thesis .
qed

lemma verifyChecksum_createChecksum: "verifyChecksum hrp (d5 @ createChecksum hrp d5)"
  by (simp add: verifyChecksum_def polymod_createChecksum)

text \<open>
  Claim C2. For every human-readable part and every sequence of symbols, the checksum is the
  value of \<open>polymod\<close> over the expanded part, the symbols and six zeros, with its lowest bit
  flipped: a value below \<open>2 ^ 30\<close>, cut into six 5-bit symbols with the most significant
  first. With these six symbols after the data \<open>polymod\<close> is exactly 1, so \<open>verifyChecksum\<close>
  holds. (The symbols need not be below 32 for this.)
\<close>

theorem createChecksum_verifies:
  "map unat (createChecksum hrp d5)
     = slice30 (unat (polymod (humanReadablePartExpand hrp @ d5 @ [0, 0, 0, 0, 0, 0]) XOR 1))
   \<and> unat (polymod (humanReadablePartExpand hrp @ d5 @ [0, 0, 0, 0, 0, 0]) XOR 1) < 2 ^ 30
   \<and> polymod (humanReadablePartExpand hrp @ d5 @ createChecksum hrp d5) = 1
   \<and> verifyChecksum hrp (d5 @ createChecksum hrp d5)"
proof -
  let ?E = "humanReadablePartExpand hrp"
  let ?md = "polymod (?E @ d5 @ [0, 0, 0, 0, 0, 0]) XOR 1"
  have md: "take_bit 30 ?md = ?md"
    by (simp add: take_bit_30_polymod)
  have slices: "map unat (createChecksum hrp d5) = slice30 (unat ?md)"
    unfolding createChecksum_def slice30_def Let_def map_map
    by (rule map_cong) (simp_all add: unat_slice [OF md])
  have "unat ?md = take_bit 30 (unat ?md)"
    by (subst md [symmetric]) (simp only: unsigned_take_bit_eq)
  also have "\<dots> < 2 ^ 30"
    by (rule take_bit_nat_less_exp)
  finally have bound: "unat ?md < 2 ^ 30" .
  have one: "polymod (?E @ d5 @ createChecksum hrp d5) = 1"
    by (rule polymod_createChecksum)
  have "verifyChecksum hrp (d5 @ createChecksum hrp d5)"
    by (rule verifyChecksum_createChecksum)
  with slices bound one show ?thesis by simp
qed

theorem createChecksum_verifies_witness:
  "createChecksum ''a'' [] = [10, 28, 25, 31, 20, 31]
   \<and> slice30 (unat (polymod (humanReadablePartExpand ''a'' @ [] @ [0, 0, 0, 0, 0, 0]) XOR 1))
       = [10, 28, 25, 31, 20, 31]
   \<and> verifyChecksum ''a'' ([] @ [10, 28, 25, 31, 20, 31])"
proof -
  have c: "createChecksum ''a'' [] = [10, 28, 25, 31, 20, 31]" by code_simp
  from createChecksum_verifies [of "''a''" "[]"] show ?thesis
    unfolding c by simp
qed

section \<open>The conversion as a regrouping of bits\<close>

lemma length_bits_of [simp]: "length (bits_of n w) = n"
  by (simp add: bits_of_def)

lemma bits_of_0 [simp]: "bits_of 0 w = []"
  by (simp add: bits_of_def)

lemma bits_of_nth: "i < n \<Longrightarrow> bits_of n w ! i = bit w (n - Suc i)"
  by (simp add: bits_of_def rev_nth)

lemma bits_of_eqI:
  assumes "\<And>i. i < n \<Longrightarrow> bit v i = bit w i"
  shows "bits_of n v = bits_of n w"
  using assms by (simp add: bits_of_def)

lemma bits_of_add: "bits_of (m + n) w = bits_of m (drop_bit n w) @ bits_of n w"
proof (rule nth_equalityI)
  show "length (bits_of (m + n) w) = length (bits_of m (drop_bit n w) @ bits_of n w)"
    by simp
next
  fix i
  assume "i < length (bits_of (m + n) w)"
  then have i: "i < m + n" by simp
  show "bits_of (m + n) w ! i = (bits_of m (drop_bit n w) @ bits_of n w) ! i"
  proof (cases "i < m")
    case True
    then have "n + (m - Suc i) = m + n - Suc i" by simp
    with True i show ?thesis
      by (simp add: nth_append bits_of_nth bit_drop_bit_eq)
  next
    case False
    then have "n - Suc (i - m) = m + n - Suc i" by simp
    with False i show ?thesis
      by (simp add: nth_append bits_of_nth)
  qed
qed

lemma length_bit_stream [simp]: "length (bit_stream n ws) = n * length ws"
  by (induction ws) (simp_all add: bit_stream_def)

lemma bit_stream_append [simp]: "bit_stream n (xs @ ys) = bit_stream n xs @ bit_stream n ys"
  by (simp add: bit_stream_def)

lemma bit_stream_Cons [simp]: "bit_stream n (x # xs) = bits_of n x @ bit_stream n xs"
  by (simp add: bit_stream_def)

lemma bit_stream_Nil [simp]: "bit_stream n [] = []"
  by (simp add: bit_stream_def)

text \<open>Shifting a unit in appends its bits.\<close>

lemma bits_of_shift_in:
  fixes v d :: int32
  assumes "b + f \<le> 32" and "take_bit f d = d"
  shows "bits_of (b + f) (push_bit f v OR d) = bits_of b v @ bits_of f d"
proof -
  have hi: "\<not> bit d j" if "f \<le> j" for j
    using that assms(2) by (metis bit_take_bit_iff not_le)
  have "bits_of b (drop_bit f (push_bit f v OR d)) = bits_of b v"
  proof (rule bits_of_eqI)
    fix i assume "i < b"
    with assms(1) have "f + i < 32" by simp
    then show "bit (drop_bit f (push_bit f v OR d)) i = bit v i"
      by (simp add: bit_drop_bit_eq bit_or_iff bit_push_bit_iff hi possible_bit_def)
  qed
  moreover have "bits_of f (push_bit f v OR d) = bits_of f d"
    by (rule bits_of_eqI) (simp add: bit_or_iff bit_push_bit_iff)
  ultimately show ?thesis
    by (simp add: bits_of_add)
qed

text \<open>Taking a unit out removes its bits from the front.\<close>

lemma bits_of_take_out:
  fixes v :: int32
  assumes "t \<le> b" and "b \<le> 32"
  shows "bits_of b v = bits_of t (signed_drop_bit (b - t) v AND mask t) @ bits_of (b - t) v"
proof -
  have "bits_of t (signed_drop_bit (b - t) v AND mask t) = bits_of t (drop_bit (b - t) v)"
  proof (rule bits_of_eqI)
    fix i assume i: "i < t"
    with assms have "\<not> (32 - (b - t) \<le> i)" and "i < 32" by simp_all
    with i show "bit (signed_drop_bit (b - t) v AND mask t) i = bit (drop_bit (b - t) v) i"
      by (simp add: bit_and_iff bit_mask_iff bit_signed_drop_bit_iff bit_drop_bit_eq)
  qed
  moreover have "bits_of b v = bits_of (t + (b - t)) v"
    using assms(1) by simp
  ultimately show ?thesis
    by (simp only: bits_of_add)
qed

lemma convertBits_while_bits:
  assumes t: "0 < t" "t < 32"
  shows "b \<le> 32 \<Longrightarrow>
    \<exists>out. convertBits_while t (mask t) v b res = Some (b mod t, res @ out)
      \<and> bit_stream t out @ bits_of (b mod t) v = bits_of b v
      \<and> list_all (\<lambda>x. take_bit t x = x) out"
proof (induction b arbitrary: res rule: less_induct)
  case (less b)
  show ?case
  proof (cases "b < t")
    case True
    then show ?thesis by (simp add: convertBits_while_done)
  next
    case False
    then have le: "t \<le> b" by simp
    let ?x = "js_sar v (b - t) AND mask t"
    from t le less.prems have "b - t < 32" by simp
    then have x: "?x = signed_drop_bit (b - t) v AND mask t"
      by (simp add: js_sar_def)
    from t le less.prems have "b - t < b" "b - t \<le> 32" by simp_all
    from less.IH [OF this, of "res @ [?x]"]
    obtain out where out: "convertBits_while t (mask t) v (b - t) (res @ [?x])
        = Some ((b - t) mod t, (res @ [?x]) @ out)"
      "bit_stream t out @ bits_of ((b - t) mod t) v = bits_of (b - t) v"
      "list_all (\<lambda>x. take_bit t x = x) out"
      by blast
    have md: "(b - t) mod t = b mod t"
      using le by (simp add: le_mod_geq)
    have "bit_stream t (?x # out) @ bits_of (b mod t) v = bits_of t ?x @ bits_of (b - t) v"
      using out(2) by (simp add: md)
    also have "\<dots> = bits_of b v"
      unfolding x using le less.prems by (rule bits_of_take_out [symmetric])
    finally have st: "bit_stream t (?x # out) @ bits_of (b mod t) v = bits_of b v" .
    have "take_bit t ?x = ?x"
      by (simp add: take_bit_eq_mask and.assoc)
    with out(1,3) st le md show ?thesis
      by (intro exI [of _ "?x # out"]) (simp add: convertBits_while_step)
  qed
qed

lemma convertBits_for_bits:
  assumes t: "0 < t" "t < 32" and f: "f < 32" "t + f \<le> 33"
  shows "b < t \<Longrightarrow> list_all (\<lambda>d. take_bit f (ucast d :: int32) = ucast d) ds \<Longrightarrow>
    \<exists>val out. convertBits_for f t (mask t) ds v b res
        = Some (val, (b + f * length ds) mod t, res @ out)
      \<and> bit_stream t out @ bits_of ((b + f * length ds) mod t) val
        = bits_of b v @ bit_stream f (map ucast ds)
      \<and> list_all (\<lambda>x. take_bit t x = x) out"
proof (induction ds arbitrary: v b res)
  case Nil
  then show ?case by simp
next
  case (Cons d ds)
  let ?v = "js_shl v f OR ucast d"
  from Cons.prems f have bf: "b + f \<le> 32" by simp
  from Cons.prems have d: "take_bit f (ucast d :: int32) = ucast d" by simp
  have v: "?v = push_bit f v OR ucast d"
    using f by (simp add: js_shl_def)
  obtain out1 where out1: "convertBits_while t (mask t) ?v (b + f) res
      = Some ((b + f) mod t, res @ out1)"
    "bit_stream t out1 @ bits_of ((b + f) mod t) ?v = bits_of (b + f) ?v"
    "list_all (\<lambda>x. take_bit t x = x) out1"
    using convertBits_while_bits [OF t bf] by blast
  have "(b + f) mod t < t" using t by simp
  moreover from Cons.prems have "list_all (\<lambda>d. take_bit f (ucast d :: int32) = ucast d) ds"
    by simp
  ultimately obtain val out2 where out2:
    "convertBits_for f t (mask t) ds ?v ((b + f) mod t) (res @ out1)
      = Some (val, ((b + f) mod t + f * length ds) mod t, (res @ out1) @ out2)"
    "bit_stream t out2 @ bits_of (((b + f) mod t + f * length ds) mod t) val
      = bits_of ((b + f) mod t) ?v @ bit_stream f (map ucast ds)"
    "list_all (\<lambda>x. take_bit t x = x) out2"
    using Cons.IH [of "(b + f) mod t" ?v "res @ out1"] by blast
  have md: "((b + f) mod t + f * length ds) mod t = (b + f * length (d # ds)) mod t"
    by (simp add: mod_add_left_eq add.assoc)
  have "bit_stream t (out1 @ out2) @ bits_of ((b + f * length (d # ds)) mod t) val
      = bit_stream t out1 @ (bits_of ((b + f) mod t) ?v @ bit_stream f (map ucast ds))"
    using out2(2) by (simp add: md)
  also have "\<dots> = bits_of (b + f) ?v @ bit_stream f (map ucast ds)"
    using out1(2) by simp
  also have "bits_of (b + f) ?v = bits_of b v @ bits_of f (ucast d)"
    unfolding v using bf d by (rule bits_of_shift_in)
  finally have st: "bit_stream t (out1 @ out2) @ bits_of ((b + f * length (d # ds)) mod t) val
      = bits_of b v @ bit_stream f (map ucast (d # ds))"
    by simp
  from out1(1,3) out2(1,3) md have
    "convertBits_for f t (mask t) (d # ds) v b res
        = Some (val, (b + f * length (d # ds)) mod t, res @ (out1 @ out2))"
    "list_all (\<lambda>x. take_bit t x = x) (out1 @ out2)"
    by (simp_all add: Let_def)
  with st show ?case by blast
qed

lemma bits_of_zero: "(\<And>i. i < n \<Longrightarrow> \<not> bit w i) \<Longrightarrow> bits_of n w = replicate n False"
  by (rule nth_equalityI) (simp_all add: bits_of_nth)

lemma bits_of_zeroD:
  assumes "bits_of n w = replicate n False" and "j < n"
  shows "\<not> bit w j"
proof -
  from assms(2) have "bits_of n w ! (n - Suc j) = bit w (n - Suc (n - Suc j))"
    by (intro bits_of_nth) simp
  moreover from assms(2) have "n - Suc (n - Suc j) = j" by simp
  ultimately show ?thesis using assms by simp
qed

lemma bits_of_inj:
  assumes "bits_of n v = bits_of n w" and "take_bit n v = v" and "take_bit n w = w"
  shows "v = w"
proof (rule bit_eqI)
  fix i
  show "bit v i = bit w i"
  proof (cases "i < n")
    case True
    then have "bits_of n v ! (n - Suc i) = bit v (n - Suc (n - Suc i))"
      "bits_of n w ! (n - Suc i) = bit w (n - Suc (n - Suc i))"
      by (intro bits_of_nth; simp)+
    moreover from True have "n - Suc (n - Suc i) = i" by simp
    ultimately show ?thesis using assms(1) by simp
  next
    case False
    then have "\<not> bit v i" "\<not> bit w i"
      using assms(2,3) by (metis bit_take_bit_iff)+
    then show ?thesis by simp
  qed
qed

lemma bit_stream_inj:
  "length xs = length ys \<Longrightarrow> list_all (\<lambda>x. take_bit n x = x) xs \<Longrightarrow>
     list_all (\<lambda>x. take_bit n x = x) ys \<Longrightarrow> bit_stream n xs = bit_stream n ys \<Longrightarrow> xs = ys"
proof (induction xs ys rule: list_induct2)
  case Nil
  then show ?case by simp
next
  case (Cons x xs y ys)
  from Cons.prems(3) have "bits_of n x = bits_of n y \<and> bit_stream n xs = bit_stream n ys"
    by simp
  with Cons show ?case
    by (auto intro: bits_of_inj)
qed

text \<open>The padding unit of the direction with padding, and the padding check of the other.\<close>

lemma bits_of_padding:
  fixes val :: int32
  assumes "r \<le> t" and "t < 32"
  shows "bits_of t (push_bit (t - r) val AND mask t) = bits_of r val @ replicate (t - r) False"
proof -
  let ?x = "push_bit (t - r) val AND mask t"
  have "bits_of r (drop_bit (t - r) ?x) = bits_of r val"
  proof (rule bits_of_eqI)
    fix i assume "i < r"
    with assms have "t - r + i < t" "t - r + i < 32" by simp_all
    then show "bit (drop_bit (t - r) ?x) i = bit val i"
      by (simp add: bit_drop_bit_eq bit_and_iff bit_push_bit_iff bit_mask_iff possible_bit_def)
  qed
  moreover have "bits_of (t - r) ?x = replicate (t - r) False"
    by (rule bits_of_zero) (simp add: bit_and_iff bit_push_bit_iff)
  moreover have "bits_of t ?x = bits_of (r + (t - r)) ?x"
    using assms(1) by simp
  ultimately show ?thesis
    by (simp only: bits_of_add)
qed

lemma padding_zero:
  fixes val :: int32
  assumes "bits_of r val = replicate r False" and "r \<le> t"
  shows "push_bit (t - r) val AND mask t = 0"
proof (rule bit_eqI)
  fix i
  have "\<not> bit val (i - (t - r))" if "i < t" and "t - r \<le> i"
  proof -
    from that assms(2) have "i - (t - r) < r" by simp
    with assms(1) show ?thesis by (rule bits_of_zeroD)
  qed
  then show "bit (push_bit (t - r) val AND mask t) i = bit (0 :: int32) i"
    by (auto simp: bit_and_iff bit_push_bit_iff bit_mask_iff)
qed

lemma take_bit_8_ucast: "take_bit 8 (ucast (d :: uint8) :: int32) = ucast d"
  by (rule bit_eqI) (auto simp: bit_take_bit_iff bit_ucast_iff dest: bit_imp_le_length)

lemma ucast_ucast_5:
  fixes x :: int32
  assumes "take_bit 5 x = x"
  shows "(ucast (ucast x :: uint8) :: int32) = x"
proof (rule bit_eqI)
  fix i
  have "i < 5" if "bit x i"
    using that assms by (metis bit_take_bit_iff)
  then show "bit (ucast (ucast x :: uint8) :: int32) i = bit x i"
    by (auto simp: bit_ucast_iff dest: bit_imp_le_length)
qed

lemma ucast_ucast_8: "(ucast (ucast (d :: uint8) :: int32) :: uint8) = d"
  by (rule bit_eqI) (auto simp: bit_ucast_iff dest: bit_imp_le_length)

text \<open>\<open>to5Bit\<close> regroups the bits of the bytes by five and fills the last group with zeros.\<close>

lemma to5Bit_bits:
  "\<exists>res5 p. to5Bit bytes = Some (Inr (map ucast res5))
     \<and> bit_stream 5 res5 = bit_stream 8 (map ucast bytes) @ replicate p False
     \<and> p < 5 \<and> list_all (\<lambda>x. take_bit 5 x = x) res5"
proof -
  have maxV: "js_shl 1 5 - 1 = (mask 5 :: int32)"
    by (simp add: maxV_mask)
  let ?r = "(0 + 8 * length bytes) mod 5"
  have "list_all (\<lambda>d. take_bit 8 (ucast d :: int32) = ucast d) bytes"
    by (simp add: list_all_iff take_bit_8_ucast)
  then obtain val out where
    st: "convertBits_for 8 5 (mask 5) bytes 0 0 [] = Some (val, ?r, [] @ out)"
    and bits: "bit_stream 5 out @ bits_of ?r val = bits_of 0 0 @ bit_stream 8 (map ucast bytes)"
    and out: "list_all (\<lambda>x. take_bit 5 x = x) out"
    using convertBits_for_bits [of 5 8 0 bytes 0 "[]"] by auto
  show ?thesis
  proof (cases "0 < ?r")
    case True
    let ?pad = "js_shl val (5 - ?r) AND mask 5"
    have r: "?r \<le> 5" by simp
    have pad: "?pad = push_bit (5 - ?r) val AND mask 5"
      by (simp add: js_shl_def)
    have "bits_of 5 ?pad = bits_of ?r val @ replicate (5 - ?r) False"
      unfolding pad using r by (rule bits_of_padding) simp
    with bits have "bit_stream 5 (out @ [?pad])
        = bit_stream 8 (map ucast bytes) @ replicate (5 - ?r) False"
      by simp
    moreover have "to5Bit bytes = Some (Inr (map ucast (out @ [?pad])))"
      using st True by (simp add: to5Bit_def convertBits_def maxV)
    moreover have "list_all (\<lambda>x. take_bit 5 x = x) (out @ [?pad])"
      using out by (simp add: take_bit_eq_mask and.assoc)
    moreover have "5 - ?r < 5" using True by simp
    ultimately show ?thesis
      by (intro exI [of _ "out @ [?pad]"] exI [of _ "5 - ?r"]) simp
  next
    case False
    then have "to5Bit bytes = Some (Inr (map ucast out))"
      using st by (simp add: to5Bit_def convertBits_def maxV)
    moreover from False bits have "bit_stream 5 out = bit_stream 8 (map ucast bytes) @ replicate 0 False"
      by simp
    ultimately show ?thesis
      using out by (intro exI [of _ out] exI [of _ 0]) simp
  qed
qed

text \<open>\<open>from5Bit\<close> gives the bytes back when fewer than five zero bits were added.\<close>

lemma from5Bit_bits:
  assumes bits: "bit_stream 5 res5 = bit_stream 8 (map ucast bytes) @ replicate p False"
    and p: "p < 5" and res5: "list_all (\<lambda>x. take_bit 5 x = x) res5"
  shows "from5Bit (map ucast res5) = Some (Inr bytes)"
proof -
  have maxV: "js_shl 1 8 - 1 = (mask 8 :: int32)"
    by (simp add: maxV_mask)
  define ds where "ds = (map ucast res5 :: uint8 list)"
  define B where "B = (map ucast bytes :: int32 list)"
  define r where "r = (0 + 5 * length ds) mod 8"
  have rt: "map ucast ds = res5"
    unfolding ds_def using res5 by (induction res5) (simp_all add: ucast_ucast_5)
  have "list_all (\<lambda>d. take_bit 5 (ucast d :: int32) = ucast d) ds"
    unfolding ds_def using res5 by (induction res5) (simp_all add: ucast_ucast_5)
  then obtain val out where
    st: "convertBits_for 5 8 (mask 8) ds 0 0 [] = Some (val, r, [] @ out)"
    and sb: "bit_stream 8 out @ bits_of r val = bits_of 0 0 @ bit_stream 5 (map ucast ds)"
    and out: "list_all (\<lambda>x. take_bit 8 x = x) out"
    unfolding r_def using convertBits_for_bits [of 8 5 0 ds 0 "[]"] by auto
  from sb have eq: "bit_stream 8 out @ bits_of r val = bit_stream 8 B @ replicate p False"
    by (simp only: rt bits bits_of_0 append_Nil B_def)
  then have "length (bit_stream 8 out @ bits_of r val) = length (bit_stream 8 B @ replicate p False)"
    by (rule arg_cong)
  then have len: "8 * length out + r = 8 * length bytes + p"
    by (simp add: B_def)
  have r8: "r < 8" by (simp add: r_def)
  from len r8 p have rp: "r = p" by arith
  with len have lo: "length out = length bytes" by simp
  then have lB: "length out = length B" by (simp add: B_def)
  then have "length (bit_stream 8 out) = length (bit_stream 8 B)" by simp
  from append_eq_append_conv [THEN iffD1, OF disjI1 [OF this] eq]
  have se: "bit_stream 8 out = bit_stream 8 B" and z: "bits_of r val = replicate p False"
    by blast+
  have "list_all (\<lambda>x. take_bit 8 x = x) B"
    unfolding B_def by (induction bytes) (simp_all add: take_bit_8_ucast)
  with lB out have "out = B"
    using se by (rule bit_stream_inj)
  then have res: "map ucast out = bytes"
    unfolding B_def by (simp add: ucast_ucast_8 comp_def)
  from z have "bits_of r val = replicate r False"
    by (simp only: rp)
  then have "push_bit (8 - r) val AND mask 8 = 0"
    using r8 by (intro padding_zero) simp_all
  then have pz: "js_shl val (8 - r) AND mask 8 = 0"
    by (simp add: js_shl_def)
  from rp p have nr: "\<not> 5 \<le> r" by simp
  have "convertBits ds 5 8 False = Some (Inr (map ucast out))"
    unfolding convertBits_def maxV Let_def using st nr pz by simp
  then show ?thesis
    by (simp only: from5Bit_def ds_def res)
qed

lemma from5Bit_to5Bit:
  "\<exists>d5. to5Bit bytes = Some (Inr d5) \<and> list_all (\<lambda>d. unat d < 32) d5
     \<and> from5Bit d5 = Some (Inr bytes)"
proof -
  obtain res5 p where r: "to5Bit bytes = Some (Inr (map ucast res5))"
    "bit_stream 5 res5 = bit_stream 8 (map ucast bytes) @ replicate p False"
    "p < 5" "list_all (\<lambda>x. take_bit 5 x = x) res5"
    using to5Bit_bits by blast
  from r(2-4) have "from5Bit (map ucast res5) = Some (Inr bytes)"
    by (rule from5Bit_bits)
  moreover obtain d5 where "to5Bit bytes = Some (Inr d5)" "list_all (\<lambda>d. unat d < 32) d5"
    using to5Bit_total by blast
  ultimately show ?thesis using r(1) by auto
qed

section \<open>Decoding an encoded text\<close>

lemma symbol_of_CHARSET: "unat d < 32 \<Longrightarrow> symbol_of (CHARSET ! unat d) = d"
  by (simp add: symbol_of_def indexOf_nth distinct_CHARSET length_CHARSET)

lemma map_symbol_of_CHARSET:
  "list_all (\<lambda>d. unat d < 32) ds \<Longrightarrow> map symbol_of (map (\<lambda>d. CHARSET ! unat d) ds) = ds"
  by (induction ds) (simp_all add: symbol_of_CHARSET)

lemma decodeTo5BitArray_encode5BitArray:
  assumes hrp: "hrp \<noteq> []" "toLowerCase hrp = hrp" and d5: "list_all (\<lambda>d. unat d < 32) d5"
  shows "decodeTo5BitArray (encode5BitArray hrp d5) = Inr (Some \<lparr>humanReadablePart = hrp, data = d5\<rparr>)"
proof -
  let ?D = "d5 @ createChecksum hrp d5"
  let ?syms = "map (\<lambda>d. CHARSET ! unat d) ?D"
  let ?s = "hrp @ SEPARATOR # ?syms"
  have D: "list_all (\<lambda>d. unat d < 32) ?D"
    using d5 createChecksum_symbols by simp
  have s: "encode5BitArray hrp d5 = ?s"
    using d5 by (rule encode5BitArray_shape)
  have in_cs: "list_all (\<lambda>c. c \<in> set CHARSET) ?syms"
    using D by (auto simp: list_all_iff length_CHARSET)
  then have "list_all (\<lambda>c. toLowerCase_char c = c) ?syms"
    using toLowerCase_char_CHARSET by (auto simp: list_all_iff)
  then have "toLowerCase ?syms = ?syms"
    by (rule toLowerCase_fixed)
  then have low: "toLowerCase ?s = ?s"
    using hrp(2) by (simp add: toLowerCase_def toLowerCase_char_SEPARATOR)
  have "6 \<le> length ?syms"
    by (simp add: length_createChecksum)
  with hrp(1) have "well_formed ?s (length hrp)"
    using in_cs by (rule well_formed_shape)
  then have wf: "well_formed (toLowerCase ?s) (length hrp)"
    by (simp only: low)
  have "drop (Suc (length hrp)) ?s = ?syms" by simp
  then have sy: "map symbol_of (drop (Suc (length hrp)) ?s) = ?D"
    using map_symbol_of_CHARSET [OF D] by (simp only:)
  have tk: "take (length hrp) ?s = hrp" by simp
  have "decodeTo5BitArray ?s = Inr (Some \<lparr>humanReadablePart = hrp, data = take (length ?D - 6) ?D\<rparr>)"
    unfolding decodeTo5BitArray_well_formed [OF wf] Let_def low sy tk
    by (simp add: verifyChecksum_createChecksum)
  then show ?thesis
    by (simp add: s length_createChecksum)
qed

lemma decode_encode:
  assumes "hrp \<noteq> []" and "toLowerCase hrp = hrp"
  shows "\<exists>s. encode hrp bytes = Some (Inr s)
           \<and> decode s = Some (Inr (Some \<lparr>humanReadablePart = hrp, data = bytes\<rparr>))"
proof -
  obtain d5 where d5: "to5Bit bytes = Some (Inr d5)" "list_all (\<lambda>d. unat d < 32) d5"
    "from5Bit d5 = Some (Inr bytes)"
    using from5Bit_to5Bit by blast
  from assms d5(2) have "decodeTo5BitArray (encode5BitArray hrp d5)
      = Inr (Some \<lparr>humanReadablePart = hrp, data = d5\<rparr>)"
    by (rule decodeTo5BitArray_encode5BitArray)
  with d5(1,3) show ?thesis
    by (simp add: encode_def decode_def)
qed

lemma toLowerCase_lowercase_letters: "list_all lowercase_letter hrp \<Longrightarrow> toLowerCase hrp = hrp"
  by (rule toLowerCase_fixed) (auto simp: list_all_iff toLowerCase_char_lowercase_letter)

text \<open>
  Claim C1. For every human-readable part that matches \<open>[a-z]+\<close> and every byte sequence
  (of any length, 0 to 128 included), \<open>encode\<close> returns a text, and \<open>decode\<close> of that text
  succeeds with exactly the human-readable part and the bytes.
\<close>

theorem decode_encode_roundtrip:
  assumes "hrp \<noteq> []" and "list_all lowercase_letter hrp"
  shows "\<exists>s. encode hrp bytes = Some (Inr s)
           \<and> decode s = Some (Inr (Some \<lparr>humanReadablePart = hrp, data = bytes\<rparr>))"
  using assms(1) toLowerCase_lowercase_letters [OF assms(2)] by (rule decode_encode)

theorem decode_encode_roundtrip_witness:
  "encode ''iota'' [0] = Some (Inr ''iota1qqxz3wcw'')
   \<and> decode ''iota1qqxz3wcw'' = Some (Inr (Some \<lparr>humanReadablePart = ''iota'', data = [0]\<rparr>))"
proof -
  have h1: "''iota'' \<noteq> []" by simp
  have h2: "list_all lowercase_letter ''iota''" by (simp add: lowercase_letter_def)
  have e: "encode ''iota'' [0] = Some (Inr ''iota1qqxz3wcw'')" by code_simp
  with decode_encode_roundtrip [OF h1 h2, of "[0]"] show ?thesis by simp
qed

section \<open>A substituted symbol changes the checksum\<close>













section \<open>Typed addresses\<close>

text \<open>
  Claim C6, as amended. \<open>fromBech32\<close> returns \<open>undefined\<close> when \<open>decode\<close> returns its soft
  failure; it throws the prefix-mismatch error, naming the expected and the decoded prefix,
  when \<open>decode\<close> succeeds with another prefix; it throws the empty-payload error when
  \<open>decode\<close> succeeds with the expected prefix and an empty payload; it returns the first
  byte as the address type and the rest as the address bytes when \<open>decode\<close> succeeds with
  the expected prefix and a payload that is not empty. An error thrown by \<open>decode\<close> is
  thrown on.
\<close>

theorem fromBech32_cases:
  "(decode bech = Some (Inr None) \<longrightarrow> fromBech32 bech hrp = Some (Inr None))
   \<and> (decode bech = Some (Inr (Some dec)) \<and> humanReadablePart dec \<noteq> hrp \<longrightarrow>
        fromBech32 bech hrp = Some (Inl (PrefixMismatch hrp (humanReadablePart dec))))
   \<and> (decode bech = Some (Inr (Some dec)) \<and> humanReadablePart dec = hrp \<and> data dec = [] \<longrightarrow>
        fromBech32 bech hrp = Some (Inl EmptyPayload))
   \<and> (decode bech = Some (Inr (Some dec)) \<and> humanReadablePart dec = hrp \<and> data dec \<noteq> [] \<longrightarrow>
        fromBech32 bech hrp =
          Some (Inr (Some \<lparr>addressType = hd (data dec), addressBytes = tl (data dec)\<rparr>)))
   \<and> (decode bech = Some (Inl e) \<longrightarrow> fromBech32 bech hrp = Some (Inl e))"
  by (auto simp: fromBech32_def hd_conv_nth drop_Suc)

text \<open>
  The claim as it was stated, "the empty-payload error whenever \<open>decode\<close> succeeds with an
  empty payload", fails for a text with an empty payload and another prefix: the prefix is
  compared first.
\<close>

theorem fromBech32_cases_counterexample:
  "decode ''a12uel5l'' = Some (Inr (Some \<lparr>humanReadablePart = ''a'', data = []\<rparr>))
   \<and> fromBech32 ''a12uel5l'' ''b'' = Some (Inl (PrefixMismatch ''b'' ''a''))
   \<and> fromBech32 ''a12uel5l'' ''b'' \<noteq> Some (Inl EmptyPayload)"
  by code_simp

theorem fromBech32_cases_witness:
  "fromBech32 ''a1qqqqqq'' ''a'' = Some (Inr None)
   \<and> fromBech32 ''iota1qqxz3wcw'' ''atoi'' = Some (Inl (PrefixMismatch ''atoi'' ''iota''))
   \<and> fromBech32 ''a12uel5l'' ''a'' = Some (Inl EmptyPayload)
   \<and> fromBech32 ''iota1qqxz3wcw'' ''iota'' = Some (Inr (Some \<lparr>addressType = 0, addressBytes = []\<rparr>))
   \<and> fromBech32 ''a1qqbqqq'' ''a'' = Some (Inl (InvalidCharacter CHR ''b''))"
proof -
  have d1: "decode ''a1qqqqqq'' = Some (Inr None)" by code_simp
  have d2: "decode ''iota1qqxz3wcw'' = Some (Inr (Some \<lparr>humanReadablePart = ''iota'', data = [0]\<rparr>))"
    by code_simp
  have d3: "decode ''a12uel5l'' = Some (Inr (Some \<lparr>humanReadablePart = ''a'', data = []\<rparr>))"
    by code_simp
  have d4: "decode ''a1qqbqqq'' = Some (Inl (InvalidCharacter CHR ''b''))" by code_simp
  have 1: "fromBech32 ''a1qqqqqq'' ''a'' = Some (Inr None)"
    using fromBech32_cases [where bech = "''a1qqqqqq''" and hrp = "''a''"] d1 by simp
  have 2: "fromBech32 ''iota1qqxz3wcw'' ''atoi'' = Some (Inl (PrefixMismatch ''atoi'' ''iota''))"
    using fromBech32_cases [where bech = "''iota1qqxz3wcw''" and hrp = "''atoi''"
        and dec = "\<lparr>humanReadablePart = ''iota'', data = [0]\<rparr>"] d2
    by simp
  have 3: "fromBech32 ''a12uel5l'' ''a'' = Some (Inl EmptyPayload)"
    using fromBech32_cases [where bech = "''a12uel5l''" and hrp = "''a''"
        and dec = "\<lparr>humanReadablePart = ''a'', data = []\<rparr>"] d3
    by simp
  have 4: "fromBech32 ''iota1qqxz3wcw'' ''iota'' = Some (Inr (Some \<lparr>addressType = 0, addressBytes = []\<rparr>))"
    using fromBech32_cases [where bech = "''iota1qqxz3wcw''" and hrp = "''iota''"
        and dec = "\<lparr>humanReadablePart = ''iota'', data = [0]\<rparr>"] d2
    by simp
  have 5: "fromBech32 ''a1qqbqqq'' ''a'' = Some (Inl (InvalidCharacter CHR ''b''))"
    using fromBech32_cases [where bech = "''a1qqbqqq''" and hrp = "''a''"
        and e = "InvalidCharacter CHR ''b''"] d4 by simp
  from 1 2 3 4 5 show ?thesis by simp
qed

lemma fromBech32_toBech32:
  assumes "hrp \<noteq> []" and "toLowerCase hrp = hrp"
  shows "\<exists>s. toBech32 t ab hrp = Some (Inr s)
           \<and> fromBech32 s hrp = Some (Inr (Some \<lparr>addressType = word_of_int t, addressBytes = ab\<rparr>))"
proof -
  obtain s where s: "encode hrp (word_of_int t # ab) = Some (Inr s)"
    "decode s = Some (Inr (Some \<lparr>humanReadablePart = hrp, data = word_of_int t # ab\<rparr>))"
    using decode_encode [OF assms] by blast
  then show ?thesis
    by (simp add: toBech32_def fromBech32_def)
qed

text \<open>
  Claim C10. \<open>toBech32\<close> keeps the address type modulo 256: the result for \<open>t\<close> is the
  result for \<open>t mod 256\<close>, and the payload that is encoded starts with the byte of value
  \<open>t mod 256\<close>. For a human-readable part that decodes (not empty, its own lowercase form),
  \<open>fromBech32\<close> reads that byte back as the address type.
\<close>

theorem toBech32_tag_mod_256:
  "toBech32 t ab hrp = toBech32 (t mod 256) ab hrp
   \<and> toBech32 t ab hrp = encode hrp (word_of_int (t mod 256) # ab)
   \<and> uint (word_of_int (t mod 256) :: uint8) = t mod 256
   \<and> (hrp \<noteq> [] \<and> toLowerCase hrp = hrp \<longrightarrow>
        (\<exists>s. toBech32 t ab hrp = Some (Inr s)
           \<and> fromBech32 s hrp
               = Some (Inr (Some \<lparr>addressType = word_of_int (t mod 256), addressBytes = ab\<rparr>))))"
proof -
  have w: "(word_of_int (t mod 256) :: uint8) = word_of_int t"
    by (simp add: word_of_int_eq_iff take_bit_eq_mod)
  have "uint (word_of_int t :: uint8) = t mod 256"
    by (simp add: uint_word_of_int_eq take_bit_eq_mod)
  moreover have "\<exists>s. toBech32 t ab hrp = Some (Inr s)
      \<and> fromBech32 s hrp = Some (Inr (Some \<lparr>addressType = word_of_int t, addressBytes = ab\<rparr>))"
    if "hrp \<noteq> []" "toLowerCase hrp = hrp"
    using that by (rule fromBech32_toBech32)
  ultimately show ?thesis
    by (simp add: toBech32_def w)
qed

theorem toBech32_tag_mod_256_witness:
  "toBech32 257 [2] ''iota'' = toBech32 1 [2] ''iota''
   \<and> toBech32 (- 1) [2] ''iota'' = encode ''iota'' [255, 2]
   \<and> (\<exists>s. toBech32 257 [2] ''iota'' = Some (Inr s)
         \<and> fromBech32 s ''iota'' = Some (Inr (Some \<lparr>addressType = 1, addressBytes = [2]\<rparr>)))"
proof -
  have low: "''iota'' \<noteq> [] \<and> toLowerCase ''iota'' = ''iota''"
    by (simp add: toLowerCase_def toLowerCase_char_def)
  have "toBech32 257 [2] ''iota'' = toBech32 (257 mod 256) [2] ''iota''"
    using toBech32_tag_mod_256 [of 257 "[2]" "''iota''"] by blast
  moreover have "toBech32 (- 1) [2] ''iota'' = encode ''iota'' (word_of_int (- 1 mod 256) # [2])"
    using toBech32_tag_mod_256 [of "- 1" "[2]" "''iota''"] by blast
  moreover have "\<exists>s. toBech32 257 [2] ''iota'' = Some (Inr s)
      \<and> fromBech32 s ''iota''
          = Some (Inr (Some \<lparr>addressType = word_of_int (257 mod 256), addressBytes = [2]\<rparr>))"
    using toBech32_tag_mod_256 [of 257 "[2]" "''iota''"] low by blast
  ultimately show ?thesis by simp
qed

section \<open>A substituted letter of the human-readable part\<close>









end
